theory Spec2Isabelle
  imports Main "HOL-Library.Sublist" "HOL-Library.Multiset"
begin

section \<open>Changesets: bump types and the highest pending bump\<close>

text \<open>
  Go strings are byte sequences; they are modelled as \<open>string\<close> (a list of 8-bit
  characters). A \<open>bumpType\<close> is a named string type in the source, so a changeset can
  carry any string in its \<open>bump\<close> field; the three recognised values are constants.
\<close>

type_synonym bumpType = string

definition patch :: bumpType where "patch = ''patch''"
definition minor :: bumpType where "minor = ''minor''"
definition major :: bumpType where "major = ''major''"

record changeset =
  filepath :: string
  repoName :: string
  bump :: bumpType
  summary :: string

definition bumpPriority :: "bumpType \<Rightarrow> int" where
  "bumpPriority b =
     (if b = patch then 1 else if b = minor then 2 else if b = major then 3 else 0)"

text \<open>The \<open>for _, cs := range changes\<close> loop of \<open>highestBump\<close>, with the running
  value \<open>highest\<close> as accumulator.\<close>

fun highestBump_loop :: "bumpType \<Rightarrow> changeset list \<Rightarrow> bumpType" where
  "highestBump_loop highest [] = highest"
| "highestBump_loop highest (cs # rest) =
     highestBump_loop
       (if bumpPriority (bump cs) > bumpPriority highest then bump cs else highest) rest"

definition highestBump :: "changeset list \<Rightarrow> bumpType" where
  "highestBump changes = highestBump_loop patch changes"

definition recognised :: "bumpType \<Rightarrow> bool" where
  "recognised b \<longleftrightarrow> b = patch \<or> b = minor \<or> b = major"

section \<open>String primitives of the Go standard library\<close>

text \<open>
  \<open>strings.HasPrefix\<close>, \<open>strings.TrimPrefix\<close> and \<open>strings.Index\<close> on byte strings.
  \<open>Index\<close> returns the byte offset of the first occurrence of \<open>sep\<close>; Go's \<open>-1\<close> is
  \<open>None\<close>.
\<close>

definition HasPrefix :: "string \<Rightarrow> string \<Rightarrow> bool" where
  "HasPrefix s p = prefix p s"

definition TrimPrefix :: "string \<Rightarrow> string \<Rightarrow> string" where
  "TrimPrefix s p = (if HasPrefix s p then drop (length p) s else s)"

fun Index :: "string \<Rightarrow> string \<Rightarrow> nat option" where
  "Index [] sep = (if sep = [] then Some 0 else None)"
| "Index (c # cs) sep =
     (if prefix sep (c # cs) then Some 0 else map_option Suc (Index cs sep))"

text \<open>
  \<open>strings.SplitN(s, sep, n)\<close> for a non-empty separator and \<open>n \<ge> 0\<close>: at most \<open>n\<close>
  pieces, the last one holding the unsplit remainder.
\<close>

fun SplitN :: "string \<Rightarrow> string \<Rightarrow> nat \<Rightarrow> string list" where
  "SplitN s sep 0 = []"
| "SplitN s sep (Suc n) =
     (if n = 0 then [s]
      else case Index s sep of
             None \<Rightarrow> [s]
           | Some i \<Rightarrow> take i s # SplitN (drop (i + length sep) s) sep n)"

text \<open>\<open>strings.TrimLeft(s, cutset)\<close> for a cutset of ASCII bytes.\<close>

definition TrimLeft :: "string \<Rightarrow> string \<Rightarrow> string" where
  "TrimLeft s cutset = dropWhile (\<lambda>c. c \<in> set cutset) s"

text \<open>
  \<open>strings.TrimSpace\<close> removes the leading and the trailing white space of a UTF-8 text,
  white space being the code points of \<open>unicode.IsSpace\<close>: tab, line feed, vertical
  tab, form feed, carriage return, space, U+0085, U+00A0, U+1680, U+2000 to U+200A,
  U+2028, U+2029, U+202F, U+205F and U+3000. On a byte string these are the byte
  sequences of \<open>spaceRunes\<close> (their UTF-8 encodings); a byte that does not begin or end
  such a sequence stops the trimming, as an undecodable byte does in Go.
\<close>

definition spaceRunes :: "string list" where
  "spaceRunes =
    [[CHR 0x09], [CHR 0x0A], [CHR 0x0B], [CHR 0x0C], [CHR 0x0D], [CHR 0x20],
     [CHR 0xC2, CHR 0x85], [CHR 0xC2, CHR 0xA0],
     [CHR 0xE1, CHR 0x9A, CHR 0x80],
     [CHR 0xE2, CHR 0x80, CHR 0x80], [CHR 0xE2, CHR 0x80, CHR 0x81],
     [CHR 0xE2, CHR 0x80, CHR 0x82], [CHR 0xE2, CHR 0x80, CHR 0x83],
     [CHR 0xE2, CHR 0x80, CHR 0x84], [CHR 0xE2, CHR 0x80, CHR 0x85],
     [CHR 0xE2, CHR 0x80, CHR 0x86], [CHR 0xE2, CHR 0x80, CHR 0x87],
     [CHR 0xE2, CHR 0x80, CHR 0x88], [CHR 0xE2, CHR 0x80, CHR 0x89],
     [CHR 0xE2, CHR 0x80, CHR 0x8A],
     [CHR 0xE2, CHR 0x80, CHR 0xA8], [CHR 0xE2, CHR 0x80, CHR 0xA9],
     [CHR 0xE2, CHR 0x80, CHR 0xAF], [CHR 0xE2, CHR 0x81, CHR 0x9F],
     [CHR 0xE3, CHR 0x80, CHR 0x80]]"

text \<open>
  The trimming loop: while the string begins with one of the byte sequences \<open>toks\<close>,
  drop it. Trimming on the right runs the same loop on the reversed string with the
  reversed sequences.
\<close>

function stripRunes :: "string list \<Rightarrow> string \<Rightarrow> string" where
  "stripRunes toks s =
     (case find (\<lambda>t. t \<noteq> [] \<and> prefix t s) toks of
        None \<Rightarrow> s
      | Some t \<Rightarrow> stripRunes toks (drop (length t) s))"
  by pat_completeness auto
termination
  by (relation "measure (\<lambda>(toks, s). length s)")
     (auto simp add: find_Some_iff prefix_def)

declare stripRunes.simps [simp del]

definition TrimLeftSpace :: "string \<Rightarrow> string" where
  "TrimLeftSpace s = stripRunes spaceRunes s"

definition TrimRightSpace :: "string \<Rightarrow> string" where
  "TrimRightSpace s = rev (stripRunes (map rev spaceRunes) (rev s))"

definition TrimSpace :: "string \<Rightarrow> string" where
  "TrimSpace s = TrimRightSpace (TrimLeftSpace s)"

section \<open>Parsing and rendering a changeset\<close>

text \<open>The errors of the parser, one constructor for each \<open>fmt.Errorf\<close> of the source.\<close>

datatype parseError =
    MissingOpeningDelimiter
  | MissingClosingDelimiter
  | InvalidFrontmatterFormat
  | InvalidBumpType string

definition parseBumpType :: "string \<Rightarrow> parseError + bumpType" where
  "parseBumpType s =
     (if s = patch \<or> s = minor \<or> s = major then Inr s else Inl (InvalidBumpType s))"

text \<open>
  \<open>parseChangeset\<close> of \<open>changeset.go\<close>: the closing delimiter is the first
  \<open>"\n---"\<close> after the opening one.
\<close>

definition parseChangeset :: "string \<Rightarrow> string \<Rightarrow> parseError + changeset" where
  "parseChangeset content filePath =
     (let content = TrimSpace content in
      if \<not> HasPrefix content ''---'' then Inl MissingOpeningDelimiter
      else
        let rest = drop 3 content in
        case Index rest ''\<newline>---'' of
          None \<Rightarrow> Inl MissingClosingDelimiter
        | Some idx \<Rightarrow>
            let frontmatter = TrimSpace (take idx rest);
                body = TrimSpace (drop (idx + 4) rest);
                parts = SplitN frontmatter '':'' 2
            in if length parts \<noteq> 2 then Inl InvalidFrontmatterFormat
               else
                 let repoName = TrimSpace (parts ! 0);
                     bumpStr = TrimSpace (parts ! 1)
                 in case parseBumpType bumpStr of
                      Inl err \<Rightarrow> Inl err
                    | Inr b \<Rightarrow>
                        Inr \<lparr>filepath = filePath, repoName = repoName,
                             bump = b, summary = body\<rparr>)"

text \<open>
  \<open>Parse\<close> of \<open>internal/changeset/changeset.go\<close>: the same function, except that the
  closing delimiter is the first \<open>"---"\<close> anywhere after the opening one. Its
  \<open>Changeset\<close> struct has the same four fields and is the same record here.
\<close>

definition Parse :: "string \<Rightarrow> string \<Rightarrow> parseError + changeset" where
  "Parse content filepath' =
     (let content = TrimSpace content in
      if \<not> HasPrefix content ''---'' then Inl MissingOpeningDelimiter
      else
        let content = drop 3 content in
        case Index content ''---'' of
          None \<Rightarrow> Inl MissingClosingDelimiter
        | Some idx \<Rightarrow>
            let frontmatter = TrimSpace (take idx content);
                body = TrimSpace (drop (idx + 3) content);
                parts = SplitN frontmatter '':'' 2
            in if length parts \<noteq> 2 then Inl InvalidFrontmatterFormat
               else
                 let repoName = TrimSpace (parts ! 0);
                     bumpStr = TrimSpace (parts ! 1)
                 in case parseBumpType bumpStr of
                      Inl err \<Rightarrow> Inl err
                    | Inr b \<Rightarrow>
                        Inr \<lparr>filepath = filepath', repoName = repoName,
                             bump = b, summary = body\<rparr>)"

text \<open>\<open>changesetContent\<close>: \<open>fmt.Sprintf("---\n%s: %s\n---\n\n%s\n", ...)\<close>.\<close>

definition changesetContent :: "string \<Rightarrow> bumpType \<Rightarrow> string \<Rightarrow> string" where
  "changesetContent name b text =
     ''---\<newline>'' @ name @ '': '' @ b @ ''\<newline>---\<newline>\<newline>'' @ text @ ''\<newline>''"

section \<open>The version calculator\<close>

text \<open>
  The semantic-version library (\<open>github.com/Masterminds/semver/v3\<close>) is imported by
  the source and is not part of the repository. What \<open>calculateNextVersion\<close> uses of it
  is a parameter: a record of the five functions it calls, over the library's version
  type, with the zero value of that type (the value of \<open>var next semver.Version\<close> when
  no case of the \<open>switch\<close> assigns it). \<open>NewVersion\<close> returns \<open>None\<close> for the library's
  error.
\<close>

record 'v semverPackage =
  NewVersion :: "string \<Rightarrow> 'v option"
  IncMajor :: "'v \<Rightarrow> 'v"
  IncMinor :: "'v \<Rightarrow> 'v"
  IncPatch :: "'v \<Rightarrow> 'v"
  String :: "'v \<Rightarrow> string"
  ZeroVersion :: 'v

text \<open>
  \<open>calculateNextVersion\<close> of \<open>main.go\<close> (both variants have the same body). Its two
  reads of the file system are arguments here: \<open>loaded\<close> is the result of \<open>loadConfig\<close>
  and \<open>listed\<close> the result of \<open>listChangesets\<close>, each an error or a value. The function
  returns the next version string with the changesets (the newer variant returns the
  loaded configuration as well).
\<close>

record config =
  Version :: string

datatype calcError = ConfigError | ListError | InvalidVersion string

definition calculateNextVersion ::
  "'v semverPackage \<Rightarrow> calcError + config \<Rightarrow> calcError + changeset list
     \<Rightarrow> calcError + string \<times> changeset list" where
  "calculateNextVersion semver loaded listed =
     (case loaded of
        Inl err \<Rightarrow> Inl err
      | Inr cfg \<Rightarrow>
          (case listed of
             Inl err \<Rightarrow> Inl err
           | Inr changes \<Rightarrow>
               if length changes = 0 then Inr (Version cfg, [])
               else
                 let currentVersion = TrimPrefix (Version cfg) ''v'' in
                 case NewVersion semver currentVersion of
                   None \<Rightarrow> Inl (InvalidVersion (Version cfg))
                 | Some ver \<Rightarrow>
                     let b = highestBump changes;
                         next =
                           (if b = major then IncMajor semver ver
                            else if b = minor then IncMinor semver ver
                            else if b = patch then IncPatch semver ver
                            else ZeroVersion semver);
                         nextVerStr = ''v'' @ String semver next
                     in Inr (nextVerStr, changes)))"

text \<open>
  Modelled from the spec: the library itself, where a property depends on what it
  computes. The spec (4.3) asks for a \<open>major.minor.patch\<close> triple, optionally with
  pre-release and build metadata, "per standard semantic-versioning grammar", and for
  increments that reset the lower components and drop pre-release and build metadata.
  The version numbers are natural numbers (the spec puts no bound on them).
\<close>

record semverVersion =
  vmajor :: nat
  vminor :: nat
  vpatch :: nat
  vpre :: string
  vmetadata :: string

text \<open>
  Modelled from the spec: the grammar of semantic versions. A numeric identifier is a
  non-empty digit string without a leading zero (unless it is \<open>0\<close>); a pre-release
  identifier is a non-empty string of letters, digits and hyphens that, when all digits,
  is a numeric identifier; a build identifier is any non-empty such string.
\<close>

definition isDigit :: "char \<Rightarrow> bool" where
  "isDigit c \<longleftrightarrow> c \<in> set ''0123456789''"

definition isIdentChar :: "char \<Rightarrow> bool" where
  "isIdentChar c \<longleftrightarrow>
     c \<in> set ''0123456789ABCDEFGHIJKLMNOPQRSTUVWXYZabcdefghijklmnopqrstuvwxyz-''"

fun splitOn :: "char \<Rightarrow> string \<Rightarrow> string list" where
  "splitOn sep [] = [[]]"
| "splitOn sep (c # cs) =
     (if c = sep then [] # splitOn sep cs
      else case splitOn sep cs of
             [] \<Rightarrow> [[c]]
           | p # ps \<Rightarrow> (c # p) # ps)"

definition cutAt :: "char \<Rightarrow> string \<Rightarrow> string \<times> string option" where
  "cutAt sep s =
     (case Index s [sep] of
        None \<Rightarrow> (s, None)
      | Some i \<Rightarrow> (take i s, Some (drop (Suc i) s)))"

definition numericId :: "string \<Rightarrow> bool" where
  "numericId s \<longleftrightarrow> s \<noteq> [] \<and> list_all isDigit s \<and> (length s > 1 \<longrightarrow> hd s \<noteq> CHR ''0'')"

definition prereleaseId :: "string \<Rightarrow> bool" where
  "prereleaseId s \<longleftrightarrow>
     s \<noteq> [] \<and> list_all isIdentChar s \<and> (list_all isDigit s \<longrightarrow> numericId s)"

definition buildId :: "string \<Rightarrow> bool" where
  "buildId s \<longleftrightarrow> s \<noteq> [] \<and> list_all isIdentChar s"

definition natOfDigits :: "string \<Rightarrow> nat" where
  "natOfDigits s = foldl (\<lambda>n c. 10 * n + (of_char c - 48)) 0 s"

text \<open>
  Modelled from the spec: \<open>NewVersion\<close> of the library parses
  \<open>major.minor.patch[-prerelease][+build]\<close> and fails (\<open>None\<close>) on anything else.
\<close>

definition specNewVersion :: "string \<Rightarrow> semverVersion option" where
  "specNewVersion s =
     (let (rest, meta) = cutAt CHR ''+'' s;
          (core, pre) = cutAt CHR ''-'' rest
      in case splitOn CHR ''.'' core of
           [a, b, c] \<Rightarrow>
             if numericId a \<and> numericId b \<and> numericId c
                \<and> (case pre of None \<Rightarrow> True
                    | Some p \<Rightarrow> list_all prereleaseId (splitOn CHR ''.'' p))
                \<and> (case meta of None \<Rightarrow> True
                    | Some m \<Rightarrow> list_all buildId (splitOn CHR ''.'' m))
             then Some \<lparr>vmajor = natOfDigits a, vminor = natOfDigits b,
                        vpatch = natOfDigits c,
                        vpre = (case pre of None \<Rightarrow> [] | Some p \<Rightarrow> p),
                        vmetadata = (case meta of None \<Rightarrow> [] | Some m \<Rightarrow> m)\<rparr>
             else None
         | _ \<Rightarrow> None)"

text \<open>
  Modelled from the spec: "major bump resets minor and patch to zero and increments
  major; minor bump resets patch to zero and increments minor; patch bump increments
  patch only. Pre-release/build metadata, if present, is dropped by any bump".
\<close>

definition specIncMajor :: "semverVersion \<Rightarrow> semverVersion" where
  "specIncMajor v = \<lparr>vmajor = vmajor v + 1, vminor = 0, vpatch = 0, vpre = [], vmetadata = []\<rparr>"

definition specIncMinor :: "semverVersion \<Rightarrow> semverVersion" where
  "specIncMinor v =
     \<lparr>vmajor = vmajor v, vminor = vminor v + 1, vpatch = 0, vpre = [], vmetadata = []\<rparr>"

definition specIncPatch :: "semverVersion \<Rightarrow> semverVersion" where
  "specIncPatch v =
     \<lparr>vmajor = vmajor v, vminor = vminor v, vpatch = vpatch v + 1, vpre = [], vmetadata = []\<rparr>"

text \<open>
  Modelled from the spec: \<open>String\<close> of the library prints the version back,
  \<open>major.minor.patch\<close> in decimal followed by \<open>-prerelease\<close> and \<open>+build\<close> when
  present.
\<close>

function showNat :: "nat \<Rightarrow> string" where
  "showNat n =
     (if n < 10 then [char_of (48 + n)]
      else showNat (n div 10) @ [char_of (48 + n mod 10)])"
  by pat_completeness auto
termination
  by (relation "measure id") auto

declare showNat.simps [simp del]

definition specString :: "semverVersion \<Rightarrow> string" where
  "specString v =
     showNat (vmajor v) @ ''.'' @ showNat (vminor v) @ ''.'' @ showNat (vpatch v)
     @ (if vpre v \<noteq> [] then ''-'' @ vpre v else [])
     @ (if vmetadata v \<noteq> [] then ''+'' @ vmetadata v else [])"

text \<open>
  Modelled from the spec: the library as the spec describes it, packaged for
  \<open>calculateNextVersion\<close>.
\<close>

definition specSemver :: "semverVersion semverPackage" where
  "specSemver =
     \<lparr>NewVersion = specNewVersion, IncMajor = specIncMajor, IncMinor = specIncMinor,
      IncPatch = specIncPatch, String = specString,
      ZeroVersion = \<lparr>vmajor = 0, vminor = 0, vpatch = 0, vpre = [], vmetadata = []\<rparr>\<rparr>"

section \<open>The changelog\<close>

text \<open>
  \<open>buildChangelogSection\<close> of \<open>main.go\<close>. The current date (\<open>time.Now\<close>, formatted) and
  the commit lookup (\<open>getFileCommitSHA\<close>, which gives the empty string for an untracked
  file; its error is discarded by the caller) are arguments. \<open>groups\<close> is the Go map
  from bump type to a slice of changesets; reading a key that is absent gives the empty
  slice. The string builder \<open>sb\<close> is passed through \<open>writeGroup\<close>.
\<close>

type_synonym groups = "bumpType \<rightharpoonup> changeset list"

definition lookupGroup :: "groups \<Rightarrow> bumpType \<Rightarrow> changeset list" where
  "lookupGroup gs b = (case gs b of None \<Rightarrow> [] | Some items \<Rightarrow> items)"

fun groupChanges :: "groups \<Rightarrow> changeset list \<Rightarrow> groups" where
  "groupChanges gs [] = gs"
| "groupChanges gs (cs # rest) =
     groupChanges (gs(bump cs \<mapsto> lookupGroup gs (bump cs) @ [cs])) rest"

fun writeEntries :: "(string \<Rightarrow> string) \<Rightarrow> string \<Rightarrow> changeset list \<Rightarrow> string" where
  "writeEntries getFileCommitSHA sb [] = sb"
| "writeEntries getFileCommitSHA sb (cs # items) =
     (let sha = getFileCommitSHA (filepath cs) in
      writeEntries getFileCommitSHA
        (if sha \<noteq> [] then sb @ ''- '' @ sha @ '': '' @ summary cs @ ''\<newline>''
         else sb @ ''- '' @ summary cs @ ''\<newline>'')
        items)"

definition writeGroup ::
  "(string \<Rightarrow> string) \<Rightarrow> string \<Rightarrow> string \<Rightarrow> changeset list \<Rightarrow> string" where
  "writeGroup getFileCommitSHA sb title items =
     (if length items = 0 then sb
      else writeEntries getFileCommitSHA (sb @ ''\<newline>### '' @ title @ ''\<newline>\<newline>'') items)"

definition buildChangelogSection ::
  "(string \<Rightarrow> string) \<Rightarrow> string \<Rightarrow> string \<Rightarrow> changeset list \<Rightarrow> string" where
  "buildChangelogSection getFileCommitSHA date ver changes =
     (let sb = ''## '' @ ver @ '' - '' @ date @ ''\<newline>'';
          gs = groupChanges [major \<mapsto> [], minor \<mapsto> [], patch \<mapsto> []] changes;
          sb = writeGroup getFileCommitSHA sb ''Major Changes'' (lookupGroup gs major);
          sb = writeGroup getFileCommitSHA sb ''Minor Changes'' (lookupGroup gs minor);
          sb = writeGroup getFileCommitSHA sb ''Patch Changes'' (lookupGroup gs patch)
      in sb)"

text \<open>
  The content that \<open>prependChangelog\<close> of \<open>main.go\<close> writes to \<open>CHANGELOG.md\<close>.
  \<open>readFile\<close> is the result of \<open>os.ReadFile\<close>: \<open>None\<close> when the file cannot be read,
  in which case \<open>existing\<close> stays empty.
\<close>

definition prependChangelog :: "string option \<Rightarrow> string \<Rightarrow> string" where
  "prependChangelog readFile section' =
     (let existing = (case readFile of None \<Rightarrow> [] | Some data \<Rightarrow> data) in
      if existing = [] then ''# Changelog\<newline>\<newline>'' @ section'
      else if HasPrefix existing ''# '' then
        (case Index existing ''\<newline>'' of
           Some idx \<Rightarrow>
             let header = take (idx + 1) existing;
                 rest = drop (idx + 1) existing;
                 rest = TrimLeft rest ''\<newline>''
             in header @ ''\<newline>'' @ section' @ ''\<newline>'' @ rest
         | None \<Rightarrow> existing @ ''\<newline>\<newline>'' @ section')
      else section' @ ''\<newline>'' @ existing)"

section \<open>Vocabulary of the properties\<close>

text \<open>The bytes that occur in the encoding of some white-space code point.\<close>

definition spaceBytes :: "char set" where
  "spaceBytes = \<Union> (set ` set spaceRunes)"

text \<open>
  The package names that a rendered changeset can carry: no surrounding white space (the
  parser trims the name), no colon (the frontmatter is split at its first colon) and no
  line of the name starting with three hyphens (it would be read as the closing
  delimiter).
\<close>

definition validName :: "string \<Rightarrow> bool" where
  "validName name \<longleftrightarrow>
     TrimSpace name = name \<and> CHR '':'' \<notin> set name
     \<and> \<not> sublist ''\<newline>---'' (''\<newline>'' @ name)"

text \<open>
  The changelog section in the words of the spec (4.4): one list item for each changeset,
  a group being its heading followed by its items, or nothing when it has no member.
\<close>

definition renderEntry :: "(string \<Rightarrow> string) \<Rightarrow> changeset \<Rightarrow> string" where
  "renderEntry commitLookup cs =
     (if commitLookup (filepath cs) \<noteq> []
      then ''- '' @ commitLookup (filepath cs) @ '': '' @ summary cs @ ''\<newline>''
      else ''- '' @ summary cs @ ''\<newline>'')"

definition renderGroup :: "(string \<Rightarrow> string) \<Rightarrow> string \<Rightarrow> changeset list \<Rightarrow> string" where
  "renderGroup commitLookup title members =
     (if members = [] then []
      else ''\<newline>### '' @ title @ ''\<newline>\<newline>'' @ concat (map (renderEntry commitLookup) members))"

text \<open>The first line of a document: the text before its first newline.\<close>

definition firstLine :: "string \<Rightarrow> string" where
  "firstLine doc = takeWhile (\<lambda>c. c \<noteq> CHR ''\<newline>'') doc"

section \<open>Properties of the highest bump\<close>

lemma bump_consts_distinct: "patch \<noteq> minor" "patch \<noteq> major" "minor \<noteq> major"
  by (simp_all add: patch_def minor_def major_def)

lemma bumpPriority_simps:
  "bumpPriority patch = 1" "bumpPriority minor = 2" "bumpPriority major = 3"
  using bump_consts_distinct by (auto simp add: bumpPriority_def)

lemma bumpPriority_unrecognised: "\<not> recognised b \<Longrightarrow> bumpPriority b = 0"
  by (simp add: bumpPriority_def recognised_def)

lemma bumpPriority_range: "0 \<le> bumpPriority b \<and> bumpPriority b \<le> 3"
  by (simp add: bumpPriority_def)

lemma highestBump_loop_char:
  "recognised h \<Longrightarrow>
   highestBump_loop h changes =
     (if h = major \<or> major \<in> bump ` set changes then major
      else if h = minor \<or> minor \<in> bump ` set changes then minor
      else patch)"
proof (induction changes arbitrary: h)
  case Nil
  then show ?case by (auto simp add: recognised_def)
next
  case (Cons c rest)
  let ?h' = "if bumpPriority (bump c) > bumpPriority h then bump c else h"
  have rec: "recognised ?h'"
  proof (cases "recognised (bump c)")
    case True
    with Cons.prems show ?thesis by simp
  next
    case False
    with Cons.prems bumpPriority_range [of h] show ?thesis
      by (simp add: bumpPriority_unrecognised)
  qed
  have step: "highestBump_loop h (c # rest) = highestBump_loop ?h' rest" by simp
  show ?case
    unfolding step Cons.IH [OF rec]
    using Cons.prems bump_consts_distinct
    by (auto simp add: recognised_def bumpPriority_def)
qed

lemma highestBump_char:
  "highestBump changes =
     (if major \<in> bump ` set changes then major
      else if minor \<in> bump ` set changes then minor
      else patch)"
  unfolding highestBump_def
  using highestBump_loop_char [of patch changes] bump_consts_distinct
  by (simp add: recognised_def)

text \<open>
  Claim C6. For every non-empty sequence of changesets carrying recognised bump types,
  \<open>highestBump\<close> returns the maximum of their bump types under the order
  patch < minor < major (the order \<open>bumpPriority\<close> realises): the result is the bump
  of some member and no member has a higher priority. The result does not depend on the
  order of the sequence: any permutation gives the same answer.
\<close>

theorem highestBump_is_maximum:
  assumes "changes \<noteq> []"
    and "\<forall>c \<in> set changes. recognised (bump c)"
  shows "bumpPriority patch < bumpPriority minor \<and> bumpPriority minor < bumpPriority major
    \<and> highestBump changes \<in> bump ` set changes
    \<and> bumpPriority (highestBump changes) = Max (bumpPriority ` bump ` set changes)
    \<and> (\<forall>changes'. mset changes' = mset changes \<longrightarrow>
           highestBump changes' = highestBump changes)"
proof -
  let ?B = "bump ` set changes"
  have order: "bumpPriority patch < bumpPriority minor \<and> bumpPriority minor < bumpPriority major"
    by (simp add: bumpPriority_simps)
  have ne: "?B \<noteq> {}" using assms(1) by simp
  have only: "?B \<subseteq> {patch, minor, major}"
    using assms(2) by (auto simp add: recognised_def)
  have mem: "highestBump changes \<in> ?B"
  proof -
    from assms(1) obtain c where c: "c \<in> set changes" by (cases changes) auto
    with assms(2) have "bump c = patch \<or> bump c = minor \<or> bump c = major"
      by (simp add: recognised_def)
    with c show ?thesis unfolding highestBump_char by force
  qed
  have upper: "bumpPriority b \<le> bumpPriority (highestBump changes)" if "b \<in> ?B" for b
  proof -
    from that only consider "b = patch" | "b = minor" | "b = major" by blast
    then show ?thesis
    proof cases
      case 1
      then show ?thesis by (simp add: highestBump_char bumpPriority_simps)
    next
      case 2
      with that have "minor \<in> ?B" by simp
      with 2 show ?thesis by (simp add: highestBump_char bumpPriority_simps)
    next
      case 3
      with that have "major \<in> ?B" by simp
      with 3 show ?thesis by (simp add: highestBump_char bumpPriority_simps)
    qed
  qed
  have mx: "Max (bumpPriority ` ?B) = bumpPriority (highestBump changes)"
  proof (rule Max_eqI)
    show "finite (bumpPriority ` ?B)" by simp
    show "y \<le> bumpPriority (highestBump changes)" if "y \<in> bumpPriority ` ?B" for y
    proof -
      from that obtain b where "b \<in> ?B" and "y = bumpPriority b" by blast
      then show ?thesis using upper by simp
    qed
    show "bumpPriority (highestBump changes) \<in> bumpPriority ` ?B"
      using mem by (rule imageI)
  qed
  have perm: "highestBump changes' = highestBump changes"
    if "mset changes' = mset changes" for changes'
  proof -
    from that have "set changes' = set changes" by (rule mset_eq_setD)
    then show ?thesis by (simp add: highestBump_char)
  qed
  from order mem mx [symmetric] perm show ?thesis by blast
qed

theorem highestBump_is_maximum_witness:
  "highestBump [\<lparr>filepath = ''a.md'', repoName = ''r'', bump = minor, summary = ''s''\<rparr>,
                \<lparr>filepath = ''b.md'', repoName = ''r'', bump = major, summary = ''t''\<rparr>,
                \<lparr>filepath = ''c.md'', repoName = ''r'', bump = patch, summary = ''u''\<rparr>] = major
   \<and> highestBump [\<lparr>filepath = ''c.md'', repoName = ''r'', bump = patch, summary = ''u''\<rparr>,
                  \<lparr>filepath = ''b.md'', repoName = ''r'', bump = major, summary = ''t''\<rparr>,
                  \<lparr>filepath = ''a.md'', repoName = ''r'', bump = minor, summary = ''s''\<rparr>] = major"
proof -
  let ?a = "\<lparr>filepath = ''a.md'', repoName = ''r'', bump = minor, summary = ''s''\<rparr>"
  let ?b = "\<lparr>filepath = ''b.md'', repoName = ''r'', bump = major, summary = ''t''\<rparr>"
  let ?c = "\<lparr>filepath = ''c.md'', repoName = ''r'', bump = patch, summary = ''u''\<rparr>"
  have ne: "[?a, ?b, ?c] \<noteq> []" by simp
  have rec: "\<forall>c \<in> set [?a, ?b, ?c]. recognised (bump c)"
    by (simp add: recognised_def)
  have perm: "mset [?c, ?b, ?a] = mset [?a, ?b, ?c]" by simp
  from highestBump_is_maximum [OF ne rec]
  have mx: "bumpPriority (highestBump [?a, ?b, ?c]) = Max (bumpPriority ` bump ` set [?a, ?b, ?c])"
    and inv: "highestBump [?c, ?b, ?a] = highestBump [?a, ?b, ?c]"
    using perm by blast+
  have "Max (bumpPriority ` bump ` set [?a, ?b, ?c]) = 3"
    by (simp add: bumpPriority_simps)
  with mx have "bumpPriority (highestBump [?a, ?b, ?c]) = 3" by simp
  then have "highestBump [?a, ?b, ?c] = major"
    by (simp add: bumpPriority_def split: if_splits)
  with inv show ?thesis by simp
qed

text \<open>
  Claim C10. \<open>highestBump\<close> is total on changesets whose bump is an arbitrary string. An
  unrecognised bump has priority 0, strictly below patch, and never decides the result:
  removing the changesets with unrecognised bumps leaves the result unchanged. The result
  is always one of patch, minor, major, and it is patch when the list is empty or holds
  only unrecognised bumps.
\<close>

theorem highestBump_total_on_arbitrary_bumps:
  "(\<not> recognised b \<longrightarrow> bumpPriority b = 0 \<and> bumpPriority b < bumpPriority patch)
   \<and> highestBump changes \<in> {patch, minor, major}
   \<and> highestBump changes = highestBump (filter (\<lambda>c. recognised (bump c)) changes)
   \<and> highestBump [] = patch
   \<and> ((\<forall>c \<in> set changes. \<not> recognised (bump c)) \<longrightarrow> highestBump changes = patch)"
proof -
  have p0: "\<not> recognised b \<longrightarrow> bumpPriority b = 0 \<and> bumpPriority b < bumpPriority patch"
    by (simp add: bumpPriority_unrecognised bumpPriority_simps)
  have range: "highestBump changes \<in> {patch, minor, major}"
    by (simp add: highestBump_char)
  have rmaj: "recognised major" and rmin: "recognised minor"
    by (simp_all add: recognised_def)
  have keep: "b' \<in> bump ` set (filter (\<lambda>c. recognised (bump c)) changes)
      \<longleftrightarrow> b' \<in> bump ` set changes" if "recognised b'" for b'
    using that by auto
  have filt: "highestBump changes = highestBump (filter (\<lambda>c. recognised (bump c)) changes)"
    unfolding highestBump_char keep [OF rmaj] keep [OF rmin] by (rule refl)
  have empty: "highestBump [] = patch" by (simp add: highestBump_def)
  have unrec: "(\<forall>c \<in> set changes. \<not> recognised (bump c)) \<longrightarrow> highestBump changes = patch"
    unfolding highestBump_char using rmaj rmin by auto
  from p0 range filt empty unrec show ?thesis by blast
qed

theorem highestBump_total_on_arbitrary_bumps_witness:
  "highestBump [\<lparr>filepath = ''a.md'', repoName = ''r'', bump = ''urgent'', summary = ''s''\<rparr>] = patch
   \<and> bumpPriority ''urgent'' = 0"
proof -
  let ?a = "\<lparr>filepath = ''a.md'', repoName = ''r'', bump = ''urgent'', summary = ''s''\<rparr>"
  have u: "\<not> recognised ''urgent''"
    by (simp add: recognised_def patch_def minor_def major_def)
  then have all: "\<forall>c \<in> set [?a]. \<not> recognised (bump c)" by simp
  from highestBump_total_on_arbitrary_bumps [of "''urgent''" "[?a]"] u all
  show ?thesis by blast
qed

section \<open>Searching a string\<close>

lemma Index_SomeD:
  "Index s sep = Some i \<Longrightarrow>
     prefix sep (drop i s) \<and> i \<le> length s \<and> (\<forall>j<i. \<not> prefix sep (drop j s))"
proof (induction s arbitrary: i)
  case Nil
  then show ?case by (simp split: if_splits)
next
  case (Cons c cs)
  show ?case
  proof (cases "prefix sep (c # cs)")
    case True
    with Cons.prems show ?thesis by simp
  next
    case False
    with Cons.prems obtain k where k: "Index cs sep = Some k" and i: "i = Suc k"
      by auto
    from Cons.IH [OF k] have p: "prefix sep (drop k cs)" and le: "k \<le> length cs"
      and mn: "\<forall>j<k. \<not> prefix sep (drop j cs)" by simp_all
    have "\<not> prefix sep (drop j (c # cs))" if "j < i" for j
    proof (cases j)
      case 0
      with False show ?thesis by simp
    next
      case (Suc j')
      with that i mn show ?thesis by simp
    qed
    with p le i show ?thesis by simp
  qed
qed

lemma Index_NoneD: "Index s sep = None \<Longrightarrow> \<not> prefix sep (drop j s)"
proof (induction s arbitrary: j)
  case Nil
  then show ?case by (simp split: if_splits)
next
  case (Cons c cs)
  from Cons.prems have np: "\<not> prefix sep (c # cs)" and n: "Index cs sep = None"
    by (simp_all split: if_splits)
  show ?case
  proof (cases j)
    case 0
    with np show ?thesis by simp
  next
    case (Suc j')
    with Cons.IH [OF n] show ?thesis by simp
  qed
qed

lemma Index_first:
  assumes "prefix sep (drop i s)" and "\<forall>j<i. \<not> prefix sep (drop j s)"
  shows "Index s sep = Some i"
proof (cases "Index s sep")
  case None
  from Index_NoneD [OF None, of i] assms(1) show ?thesis by simp
next
  case (Some k)
  from Index_SomeD [OF Some] have pk: "prefix sep (drop k s)"
    and mk: "\<forall>j<k. \<not> prefix sep (drop j s)" by simp_all
  have "\<not> k < i" using assms(2) pk by blast
  moreover have "\<not> i < k" using mk assms(1) by blast
  ultimately have "k = i" by simp
  with Some show ?thesis by simp
qed

lemma prefix_drop_sublist: "prefix sep (drop j s) \<Longrightarrow> sublist sep s"
proof -
  assume "prefix sep (drop j s)"
  then obtain r where "drop j s = sep @ r" by (auto simp add: prefix_def)
  then have "s = take j s @ sep @ r" by (metis append_take_drop_id)
  then show ?thesis unfolding sublist_def by blast
qed

lemma Index_None_iff: "Index s sep = None \<longleftrightarrow> \<not> sublist sep s"
proof
  assume n: "Index s sep = None"
  show "\<not> sublist sep s"
  proof
    assume "sublist sep s"
    then obtain ps ss where "s = ps @ sep @ ss" unfolding sublist_def by blast
    then have "prefix sep (drop (length ps) s)" by simp
    with Index_NoneD [OF n] show False by blast
  qed
next
  assume ns: "\<not> sublist sep s"
  show "Index s sep = None"
  proof (cases "Index s sep")
    case None then show ?thesis .
  next
    case (Some i)
    from Index_SomeD [OF Some] have "prefix sep (drop i s)" by simp
    with ns prefix_drop_sublist show ?thesis by blast
  qed
qed

lemma Index_append_first:
  assumes "\<not> sublist sep (u @ butlast sep)" and "sep \<noteq> []"
  shows "Index (u @ sep @ v) sep = Some (length u)"
proof (rule Index_first)
  show "prefix sep (drop (length u) (u @ sep @ v))" by simp
  show "\<forall>j<length u. \<not> prefix sep (drop j (u @ sep @ v))"
  proof (intro allI impI notI)
    fix j assume j: "j < length u" and p: "prefix sep (drop j (u @ sep @ v))"
    let ?d = "drop j u"
    from j have d: "drop j (u @ sep @ v) = ?d @ sep @ v" by simp
    from j have dne: "?d \<noteq> []" by simp
    from p d obtain r where r: "?d @ sep @ v = sep @ r" by (auto simp add: prefix_def)
    have len: "length sep \<le> length (?d @ butlast sep)" using dne assms(2)
      by (cases ?d) simp_all
    have "take (length sep) (?d @ sep @ v) = sep" using r by simp
    moreover have "take (length sep) (?d @ sep @ v) = take (length sep) (?d @ butlast sep)"
    proof -
      have "?d @ sep @ v = (?d @ butlast sep) @ (last sep # v)"
        using assms(2) by simp
      then show ?thesis using len by (metis append_eq_conv_conj take_append order_refl take_all_iff append_Nil2 diff_is_0_eq take_0)
    qed
    ultimately have "prefix sep (?d @ butlast sep)"
      by (metis take_is_prefix)
    then have "prefix sep (drop j (u @ butlast sep))" using j by simp
    then have "sublist sep (u @ butlast sep)" by (rule prefix_drop_sublist)
    with assms(1) show False by simp
  qed
qed

section \<open>Trimming white space\<close>

lemma stripRunes_fix:
  "(\<forall>t\<in>set toks. t \<noteq> [] \<longrightarrow> \<not> prefix t s) \<Longrightarrow> stripRunes toks s = s"
proof -
  assume "\<forall>t\<in>set toks. t \<noteq> [] \<longrightarrow> \<not> prefix t s"
  then have "find (\<lambda>t. t \<noteq> [] \<and> prefix t s) toks = None"
    by (auto simp add: find_None_iff)
  then show ?thesis by (subst stripRunes.simps) simp
qed

lemma stripRunes_step:
  "find (\<lambda>t. t \<noteq> [] \<and> prefix t s) toks = Some t \<Longrightarrow>
   stripRunes toks s = stripRunes toks (drop (length t) s)"
  by (subst stripRunes.simps) simp

lemma stripRunes_suffix: "suffix (stripRunes toks s) s"
proof (induction toks s rule: stripRunes.induct)
  case (1 toks s)
  show ?case
  proof (cases "find (\<lambda>t. t \<noteq> [] \<and> prefix t s) toks")
    case None
    then show ?thesis by (subst stripRunes.simps) simp
  next
    case (Some t)
    from 1 [OF Some] have "suffix (stripRunes toks (drop (length t) s)) (drop (length t) s)" .
    then have "suffix (stripRunes toks (drop (length t) s)) s"
      using suffix_drop suffix_order.trans by blast
    with stripRunes_step [OF Some] show ?thesis by simp
  qed
qed

lemma stripRunes_length: "length (stripRunes toks s) \<le> length s"
  using stripRunes_suffix [of toks s] by (rule suffix_length_le)

lemma stripRunes_fixD:
  assumes "stripRunes toks s = s" and "t \<in> set toks" and "t \<noteq> []"
  shows "\<not> prefix t s"
proof
  assume p: "prefix t s"
  with assms have "find (\<lambda>t. t \<noteq> [] \<and> prefix t s) toks \<noteq> None"
    by (auto simp add: find_None_iff)
  then obtain t' where f: "find (\<lambda>t. t \<noteq> [] \<and> prefix t s) toks = Some t'" by blast
  then have t': "t' \<noteq> []" "prefix t' s" by (auto simp add: find_Some_iff)
  then have "length (drop (length t') s) < length s"
    by (cases t') (auto simp add: prefix_def)
  moreover have "length (stripRunes toks (drop (length t') s)) \<le> length (drop (length t') s)"
    by (rule stripRunes_length)
  ultimately have "length (stripRunes toks s) < length s"
    using stripRunes_step [OF f] by simp
  with assms(1) show False by simp
qed

text \<open>A byte that occurs in none of the sequences stops the loop and shields what
  follows it.\<close>

lemma stripRunes_stop:
  assumes "\<forall>t\<in>set toks. c \<notin> set t"
  shows "stripRunes toks (p @ c # q) = stripRunes toks p @ c # q"
proof (induction p rule: length_induct)
  case (1 p)
  have same: "(t \<noteq> [] \<and> prefix t (p @ c # q)) = (t \<noteq> [] \<and> prefix t p)"
    if "t \<in> set toks" for t
  proof -
    have "prefix t p" if pre: "prefix t (p @ c # q)"
    proof -
      from pre consider "prefix t p" | us where "t = p @ us" "prefix us (c # q)"
        by (auto simp add: prefix_append)
      then show ?thesis
      proof cases
        case 1 then show ?thesis .
      next
        case 2
        show ?thesis
        proof (cases us)
          case Nil with 2 show ?thesis by simp
        next
          case (Cons a us')
          with 2 have "c \<in> set t" by simp
          with assms \<open>t \<in> set toks\<close> show ?thesis by blast
        qed
      qed
    qed
    then show ?thesis by auto
  qed
  have feq: "find (\<lambda>t. t \<noteq> [] \<and> prefix t (p @ c # q)) toks
      = find (\<lambda>t. t \<noteq> [] \<and> prefix t p) toks"
    by (rule find_cong) (simp_all add: same)
  show ?case
  proof (cases "find (\<lambda>t. t \<noteq> [] \<and> prefix t p) toks")
    case None
    then have "stripRunes toks p = p" by (subst stripRunes.simps) simp
    moreover from None feq have "stripRunes toks (p @ c # q) = p @ c # q"
      by (subst stripRunes.simps) simp
    ultimately show ?thesis by simp
  next
    case (Some t)
    then have t: "t \<noteq> []" "prefix t p" by (auto simp add: find_Some_iff)
    then have le: "length t \<le> length p" by (simp add: prefix_length_le)
    from t have shorter: "length (drop (length t) p) < length p"
      by (cases t) (auto simp add: prefix_def)
    from Some feq have "stripRunes toks (p @ c # q)
        = stripRunes toks (drop (length t) (p @ c # q))"
      by (simp add: stripRunes_step)
    also have "\<dots> = stripRunes toks (drop (length t) p @ c # q)" using le by simp
    also have "\<dots> = stripRunes toks (drop (length t) p) @ c # q"
      using 1 shorter by blast
    also have "\<dots> = stripRunes toks p @ c # q"
      using stripRunes_step [OF Some] by simp
    finally show ?thesis .
  qed
qed

lemma stripRunes_append_fix:
  assumes "stripRunes toks u = u" and "u \<noteq> []"
    and "y = [] \<or> (\<forall>t\<in>set toks. hd y \<notin> set (tl t))"
  shows "stripRunes toks (u @ y) = u @ y"
proof (rule stripRunes_fix, intro ballI impI notI)
  fix t assume t: "t \<in> set toks" "t \<noteq> []" and pre: "prefix t (u @ y)"
  from pre consider "prefix t u" | us where "t = u @ us" "prefix us y"
    by (auto simp add: prefix_append)
  then show False
  proof cases
    case 1
    with stripRunes_fixD [OF assms(1) t] show False by simp
  next
    case 2
    show False
    proof (cases us)
      case Nil
      with 2 have "prefix t u" by simp
      with stripRunes_fixD [OF assms(1) t] show False by simp
    next
      case (Cons a us')
      with 2 have y: "y \<noteq> []" "hd y = a" by (auto simp add: prefix_def)
      from 2 Cons assms(2) have "a \<in> set (tl t)" by (cases u) simp_all
      with y assms(3) t show False by blast
    qed
  qed
qed

lemma TrimLeftSpace_stop:
  "c \<notin> spaceBytes \<Longrightarrow> TrimLeftSpace (p @ c # q) = TrimLeftSpace p @ c # q"
  unfolding TrimLeftSpace_def spaceBytes_def by (rule stripRunes_stop) auto

lemma TrimRightSpace_stop:
  assumes "c \<notin> spaceBytes"
  shows "TrimRightSpace (p @ c # q) = p @ c # TrimRightSpace q"
proof -
  have "\<forall>t\<in>set (map rev spaceRunes). c \<notin> set t"
    using assms by (auto simp add: spaceBytes_def)
  then have "stripRunes (map rev spaceRunes) (rev q @ c # rev p)
      = stripRunes (map rev spaceRunes) (rev q) @ c # rev p"
    by (rule stripRunes_stop)
  then show ?thesis by (simp add: TrimRightSpace_def)
qed

lemma TrimLeftSpace_Nil: "TrimLeftSpace [] = []"
  unfolding TrimLeftSpace_def by (rule stripRunes_fix) simp

lemma TrimRightSpace_Nil: "TrimRightSpace [] = []"
  unfolding TrimRightSpace_def by (simp add: stripRunes_fix)

lemma TrimLeftSpace_newline: "TrimLeftSpace (CHR ''\<newline>'' # s) = TrimLeftSpace s"
  unfolding TrimLeftSpace_def
  by (subst stripRunes.simps) (simp add: spaceRunes_def)

lemma TrimLeftSpace_blank: "TrimLeftSpace (CHR '' '' # s) = TrimLeftSpace s"
  unfolding TrimLeftSpace_def
  by (subst stripRunes.simps) (simp add: spaceRunes_def)

lemma TrimRightSpace_newline: "TrimRightSpace (s @ ''\<newline>'') = TrimRightSpace s"
  unfolding TrimRightSpace_def
  by (subst stripRunes.simps) (simp add: spaceRunes_def)

lemma TrimLeftSpace_suffix: "suffix (TrimLeftSpace s) s"
  unfolding TrimLeftSpace_def by (rule stripRunes_suffix)

lemma TrimRightSpace_prefix: "prefix (TrimRightSpace s) s"
  unfolding TrimRightSpace_def
  using stripRunes_suffix [of "map rev spaceRunes" "rev s"]
  by (simp add: suffix_to_prefix)

lemma TrimSpace_fixD:
  assumes "TrimSpace s = s"
  shows "TrimLeftSpace s = s" and "TrimRightSpace s = s"
proof -
  have l: "length (TrimLeftSpace s) \<le> length s"
    using TrimLeftSpace_suffix by (rule suffix_length_le)
  have "length (TrimRightSpace (TrimLeftSpace s)) \<le> length (TrimLeftSpace s)"
    using TrimRightSpace_prefix by (rule prefix_length_le)
  with assms have "length s \<le> length (TrimLeftSpace s)" by (simp add: TrimSpace_def)
  with l have leq: "length (TrimLeftSpace s) = length s" by simp
  from TrimLeftSpace_suffix [of s] obtain zs where zs: "s = zs @ TrimLeftSpace s"
    by (auto simp add: suffix_def)
  then have "length s = length zs + length (TrimLeftSpace s)" by (metis length_append)
  with leq have "zs = []" by simp
  with zs show "TrimLeftSpace s = s" by simp
  with assms show "TrimRightSpace s = s" by (simp add: TrimSpace_def)
qed

lemma TrimRightSpace_after_newlines:
  assumes "TrimRightSpace s = s" and "s \<noteq> []"
  shows "TrimRightSpace (''\<newline>\<newline>'' @ s) = ''\<newline>\<newline>'' @ s"
proof -
  from assms(1) have "stripRunes (map rev spaceRunes) (rev s) = rev s"
    by (metis TrimRightSpace_def rev_rev_ident)
  moreover have "rev s \<noteq> []" using assms(2) by simp
  moreover have "\<forall>t\<in>set (map rev spaceRunes). hd ''\<newline>\<newline>'' \<notin> set (tl t)"
    by (simp add: spaceRunes_def)
  ultimately have "stripRunes (map rev spaceRunes) (rev s @ ''\<newline>\<newline>'')
      = rev s @ ''\<newline>\<newline>''"
    by (intro stripRunes_append_fix) simp_all
  then show ?thesis by (simp add: TrimRightSpace_def)
qed

lemma hyphen_not_space: "CHR ''-'' \<notin> spaceBytes"
  by (simp add: spaceBytes_def spaceRunes_def)

lemma colon_not_space: "CHR '':'' \<notin> spaceBytes"
  by (simp add: spaceBytes_def spaceRunes_def)

section \<open>Parsing a well-formed changeset\<close>

lemma drop_length_plus: "drop (length xs + n) (xs @ ys) = drop n ys"
  by (induction xs) simp_all

lemma recognised_cases:
  "recognised b \<Longrightarrow> b = ''patch'' \<or> b = ''minor'' \<or> b = ''major''"
  by (simp add: recognised_def patch_def minor_def major_def)

lemma recognised_ends:
  assumes "recognised b"
  shows "b \<noteq> []" and "hd b \<notin> spaceBytes" and "last b \<notin> spaceBytes"
  using recognised_cases [OF assms]
  by (auto simp add: spaceBytes_def spaceRunes_def)

lemma TrimRightSpace_keep:
  assumes "b \<noteq> []" and "last b \<notin> spaceBytes"
  shows "TrimRightSpace (x @ b) = x @ b"
proof -
  have "x @ b = (x @ butlast b) @ last b # []" using assms(1) by simp
  moreover have "TrimRightSpace ((x @ butlast b) @ last b # [])
      = (x @ butlast b) @ last b # TrimRightSpace []"
    using assms(2) by (rule TrimRightSpace_stop)
  ultimately show ?thesis by (simp add: TrimRightSpace_Nil)
qed

lemma TrimLeftSpace_keep:
  assumes "b \<noteq> []" and "hd b \<notin> spaceBytes"
  shows "TrimLeftSpace (b @ y) = b @ y"
proof -
  from assms(1) obtain c cs where b: "b = c # cs" by (cases b) auto
  with assms(2) have "c \<notin> spaceBytes" by simp
  then have "TrimLeftSpace ([] @ c # (cs @ y)) = TrimLeftSpace [] @ c # (cs @ y)"
    by (rule TrimLeftSpace_stop)
  with b show ?thesis by (simp add: TrimLeftSpace_Nil)
qed

lemma frontmatter_no_delimiter:
  assumes "validName name" and "recognised b"
  shows "\<not> sublist ''\<newline>---'' ((''\<newline>'' @ name) @ '': '' @ b @ ''\<newline>--'')"
proof
  assume "sublist ''\<newline>---'' ((''\<newline>'' @ name) @ '': '' @ b @ ''\<newline>--'')"
  then consider "sublist ''\<newline>---'' (''\<newline>'' @ name)"
    | "sublist ''\<newline>---'' ('': '' @ b @ ''\<newline>--'')"
    | xs1 xs2 where "''\<newline>---'' = xs1 @ xs2" "suffix xs1 (''\<newline>'' @ name)"
        "prefix xs2 ('': '' @ b @ ''\<newline>--'')"
    unfolding sublist_append by blast
  then show False
  proof cases
    case 1
    with assms(1) show False by (simp add: validName_def)
  next
    case 2
    with recognised_cases [OF assms(2)] show False
      by (auto simp add: sublist_Cons_right)
  next
    case 3
    show False
    proof (cases xs2)
      case Nil
      with 3 have "suffix ''\<newline>---'' (''\<newline>'' @ name)" by simp
      then have "sublist ''\<newline>---'' (''\<newline>'' @ name)" by (rule suffix_imp_sublist)
      with assms(1) show False by (simp add: validName_def)
    next
      case (Cons x xs2')
      with 3(3) have "x = CHR '':''" by simp
      with 3(1) Cons have "CHR '':'' \<in> set ''\<newline>---''"
        by (metis in_set_conv_decomp)
      then show False by simp
    qed
  qed
qed

lemma SplitN_frontmatter:
  assumes "CHR '':'' \<notin> set name"
  shows "SplitN (name @ '': '' @ b) '':'' 2 = [name, '' '' @ b]"
proof -
  have "\<not> sublist '':'' (name @ butlast '':'')"
    using assms by (auto simp add: sublist_def)
  then have "Index (name @ '':'' @ ('' '' @ b)) '':'' = Some (length name)"
    by (rule Index_append_first) simp
  then have "Index (name @ '': '' @ b) '':'' = Some (length name)" by simp
  then show ?thesis by (simp add: numeral_2_eq_2)
qed

lemma TrimSpace_frontmatter:
  assumes "validName name" and "recognised b"
  shows "TrimSpace (''\<newline>'' @ name @ '': '' @ b) = name @ '': '' @ b"
proof -
  from assms(1) have "TrimSpace name = name" by (simp add: validName_def)
  then have nl: "TrimLeftSpace name = name" by (rule TrimSpace_fixD)
  have "TrimLeftSpace (''\<newline>'' @ name @ '': '' @ b) = TrimLeftSpace (name @ CHR '':'' # ('' '' @ b))"
    by (simp add: TrimLeftSpace_newline)
  also have "\<dots> = TrimLeftSpace name @ CHR '':'' # ('' '' @ b)"
    using colon_not_space by (rule TrimLeftSpace_stop)
  finally have "TrimLeftSpace (''\<newline>'' @ name @ '': '' @ b) = name @ '': '' @ b"
    using nl by simp
  moreover have "TrimRightSpace ((name @ '': '') @ b) = (name @ '': '') @ b"
    using recognised_ends(1,3) [OF assms(2)] by (rule TrimRightSpace_keep)
  ultimately show ?thesis by (simp add: TrimSpace_def)
qed

lemma TrimSpace_bump:
  assumes "recognised b"
  shows "TrimSpace ('' '' @ b) = b"
proof -
  have "TrimLeftSpace ('' '' @ b) = TrimLeftSpace (b @ [])" by (simp add: TrimLeftSpace_blank)
  also have "\<dots> = b @ []" using recognised_ends(1,2) [OF assms] by (rule TrimLeftSpace_keep)
  finally have "TrimLeftSpace ('' '' @ b) = b" by simp
  moreover have "TrimRightSpace ([] @ b) = [] @ b"
    using recognised_ends(1,3) [OF assms] by (rule TrimRightSpace_keep)
  ultimately show ?thesis by (simp add: TrimSpace_def)
qed

lemma TrimSpace_document:
  "TrimSpace (''---'' @ r) = ''---'' @ TrimRightSpace r"
proof -
  have "TrimLeftSpace ([] @ CHR ''-'' # (''--'' @ r)) = TrimLeftSpace [] @ CHR ''-'' # (''--'' @ r)"
    using hyphen_not_space by (rule TrimLeftSpace_stop)
  then have "TrimLeftSpace (''---'' @ r) = ''---'' @ r" by (simp add: TrimLeftSpace_Nil)
  moreover have "TrimRightSpace (''--'' @ CHR ''-'' # r) = ''--'' @ CHR ''-'' # TrimRightSpace r"
    using hyphen_not_space by (rule TrimRightSpace_stop)
  ultimately show ?thesis by (simp add: TrimSpace_def)
qed

lemma parseChangeset_wellformed:
  assumes "validName name" and "recognised b"
  shows "parseChangeset (''---\<newline>'' @ name @ '': '' @ b @ ''\<newline>---'' @ tail) f =
     Inr \<lparr>filepath = f, repoName = name, bump = b,
          summary = TrimSpace (TrimRightSpace tail)\<rparr>"
proof -
  let ?u = "''\<newline>'' @ name @ '': '' @ b"
  let ?T = "TrimRightSpace tail"
  have "TrimSpace (''---'' @ ?u @ ''\<newline>---'' @ tail) = ''---'' @ TrimRightSpace (?u @ ''\<newline>---'' @ tail)"
    by (rule TrimSpace_document)
  moreover have "TrimRightSpace ((?u @ ''\<newline>--'') @ CHR ''-'' # tail) = (?u @ ''\<newline>--'') @ CHR ''-'' # ?T"
    using hyphen_not_space by (rule TrimRightSpace_stop)
  ultimately have trimmed: "TrimSpace (''---\<newline>'' @ name @ '': '' @ b @ ''\<newline>---'' @ tail)
      = ''---'' @ ?u @ ''\<newline>---'' @ ?T" by simp
  have "\<not> sublist ''\<newline>---'' (?u @ butlast ''\<newline>---'')"
    using frontmatter_no_delimiter [OF assms] by simp
  then have idx: "Index (?u @ ''\<newline>---'' @ ?T) ''\<newline>---'' = Some (length ?u)"
    by (rule Index_append_first) simp
  have tk: "take (length ?u) (?u @ ''\<newline>---'' @ ?T) = ?u" by simp
  have "drop (length ?u + 4) (?u @ ''\<newline>---'' @ ?T) = drop 4 (''\<newline>---'' @ ?T)"
    by (rule drop_length_plus)
  then have dr: "drop (length ?u + 4) (?u @ ''\<newline>---'' @ ?T) = ?T" by simp
  have fm: "TrimSpace ?u = name @ '': '' @ b" by (rule TrimSpace_frontmatter [OF assms])
  have sp: "SplitN (name @ '': '' @ b) '':'' 2 = [name, '' '' @ b]"
    using assms(1) by (intro SplitN_frontmatter) (simp add: validName_def)
  have tn: "TrimSpace name = name" using assms(1) by (simp add: validName_def)
  have tb: "TrimSpace ('' '' @ b) = b" by (rule TrimSpace_bump [OF assms(2)])
  have pb: "parseBumpType b = Inr b" using assms(2) by (simp add: parseBumpType_def recognised_def)
  have rest: "drop 3 (''---'' @ ?u @ ''\<newline>---'' @ ?T) = ?u @ ''\<newline>---'' @ ?T" by simp
  have hp: "HasPrefix (''---'' @ ?u @ ''\<newline>---'' @ ?T) ''---''" by (simp add: HasPrefix_def)
  show ?thesis
    unfolding parseChangeset_def trimmed Let_def rest idx option.case tk dr fm sp
    using hp tn tb pb by simp
qed

lemma stripRunes_result_fixed:
  "t \<in> set toks \<Longrightarrow> t \<noteq> [] \<Longrightarrow> \<not> prefix t (stripRunes toks s)"
proof (induction toks s rule: stripRunes.induct)
  case (1 toks s)
  show ?case
  proof (cases "find (\<lambda>t. t \<noteq> [] \<and> prefix t s) toks")
    case None
    then have "stripRunes toks s = s" by (subst stripRunes.simps) simp
    with None 1(2,3) show ?thesis by (auto simp add: find_None_iff)
  next
    case (Some t')
    from 1(1) [OF Some 1(2,3)] stripRunes_step [OF Some] show ?thesis by simp
  qed
qed

lemma stripRunes_idem: "stripRunes toks (stripRunes toks s) = stripRunes toks s"
  by (rule stripRunes_fix) (simp add: stripRunes_result_fixed)

lemma TrimRightSpace_idem: "TrimRightSpace (TrimRightSpace s) = TrimRightSpace s"
  by (simp add: TrimRightSpace_def stripRunes_idem)

lemma TrimSpace_Nil: "TrimSpace [] = []"
  by (simp add: TrimSpace_def TrimLeftSpace_Nil TrimRightSpace_Nil)

text \<open>
  Claim C2. Parsing a rendered changeset gives back what was rendered: for a package name
  that \<open>validName\<close> accepts, a recognised bump and a summary without leading or trailing
  white space, \<open>parseChangeset (changesetContent name b text)\<close> succeeds with exactly that
  name, bump and summary.
\<close>

theorem parse_render_roundtrip:
  assumes "validName name" and "recognised b" and "TrimSpace text = text"
  shows "parseChangeset (changesetContent name b text) f =
     Inr \<lparr>filepath = f, repoName = name, bump = b, summary = text\<rparr>"
proof -
  have c: "changesetContent name b text
      = ''---\<newline>'' @ name @ '': '' @ b @ ''\<newline>---'' @ ((''\<newline>\<newline>'' @ text) @ ''\<newline>'')"
    by (simp add: changesetContent_def)
  have r: "TrimRightSpace ((''\<newline>\<newline>'' @ text) @ ''\<newline>'') = TrimRightSpace (''\<newline>\<newline>'' @ text)"
    by (rule TrimRightSpace_newline)
  have "TrimSpace (TrimRightSpace (''\<newline>\<newline>'' @ text)) = text"
  proof (cases "text = []")
    case True
    have "TrimRightSpace ([CHR ''\<newline>''] @ ''\<newline>'') = TrimRightSpace [CHR ''\<newline>'']"
      by (rule TrimRightSpace_newline)
    moreover have "TrimRightSpace ([] @ ''\<newline>'') = TrimRightSpace []"
      by (rule TrimRightSpace_newline)
    ultimately have "TrimRightSpace ''\<newline>\<newline>'' = []" by (simp add: TrimRightSpace_Nil)
    with True show ?thesis by (simp add: TrimSpace_Nil)
  next
    case False
    from assms(3) have "TrimRightSpace text = text" by (rule TrimSpace_fixD)
    then have "TrimRightSpace (''\<newline>\<newline>'' @ text) = ''\<newline>\<newline>'' @ text"
      using False by (rule TrimRightSpace_after_newlines)
    moreover have "TrimLeftSpace (''\<newline>\<newline>'' @ text) = TrimLeftSpace text"
      by (simp add: TrimLeftSpace_newline)
    ultimately show ?thesis using assms(3) by (simp add: TrimSpace_def)
  qed
  with r show ?thesis
    unfolding c by (simp only: parseChangeset_wellformed [OF assms(1,2)])
qed

theorem parse_render_roundtrip_witness:
  "parseChangeset (changesetContent ''my-repo'' minor ''Added feature'') ''test.md'' =
     Inr \<lparr>filepath = ''test.md'', repoName = ''my-repo'', bump = minor,
          summary = ''Added feature''\<rparr>"
proof -
  have v: "validName ''my-repo''" by code_simp
  have r: "recognised minor" by (simp add: recognised_def)
  have t: "TrimSpace ''Added feature'' = ''Added feature''" by code_simp
  from parse_render_roundtrip [OF v r t] show ?thesis .
qed

lemma suffix_last: "suffix xs ys \<Longrightarrow> xs \<noteq> [] \<Longrightarrow> last xs = last ys"
  by (auto simp add: suffix_def)

lemma prefix_hd: "prefix xs ys \<Longrightarrow> xs \<noteq> [] \<Longrightarrow> hd xs = hd ys"
  by (auto simp add: prefix_def)

lemma TrimSpace_around_rule:
  "TrimSpace (TrimRightSpace (''\<newline>'' @ pre @ ''---'' @ post))
     = TrimLeftSpace pre @ ''---'' @ TrimRightSpace post"
proof -
  let ?P = "TrimRightSpace post"
  have "TrimRightSpace ((''\<newline>'' @ pre @ ''--'') @ CHR ''-'' # post)
      = (''\<newline>'' @ pre @ ''--'') @ CHR ''-'' # ?P"
    using hyphen_not_space by (rule TrimRightSpace_stop)
  then have a: "TrimRightSpace (''\<newline>'' @ pre @ ''---'' @ post) = ''\<newline>'' @ pre @ ''---'' @ ?P"
    by simp
  have "TrimLeftSpace (pre @ CHR ''-'' # (''--'' @ ?P)) = TrimLeftSpace pre @ CHR ''-'' # (''--'' @ ?P)"
    using hyphen_not_space by (rule TrimLeftSpace_stop)
  then have b: "TrimLeftSpace (''\<newline>'' @ pre @ ''---'' @ ?P) = TrimLeftSpace pre @ ''---'' @ ?P"
    by (simp add: TrimLeftSpace_newline)
  have "TrimRightSpace ((TrimLeftSpace pre @ ''--'') @ CHR ''-'' # ?P)
      = (TrimLeftSpace pre @ ''--'') @ CHR ''-'' # TrimRightSpace ?P"
    using hyphen_not_space by (rule TrimRightSpace_stop)
  then have c: "TrimRightSpace (TrimLeftSpace pre @ ''---'' @ ?P) = TrimLeftSpace pre @ ''---'' @ ?P"
    by (simp add: TrimRightSpace_idem)
  show ?thesis unfolding a TrimSpace_def b c by (rule refl)
qed

lemma rule_stays_a_line:
  assumes "pre = [] \<or> last pre = CHR ''\<newline>''" and "post = [] \<or> hd post = CHR ''\<newline>''"
  shows "(TrimLeftSpace pre = [] \<or> last (TrimLeftSpace pre) = CHR ''\<newline>'')
       \<and> (TrimRightSpace post = [] \<or> hd (TrimRightSpace post) = CHR ''\<newline>'')"
proof -
  have "last (TrimLeftSpace pre) = CHR ''\<newline>''" if "TrimLeftSpace pre \<noteq> []"
  proof -
    from that have "pre \<noteq> []" by (auto simp add: TrimLeftSpace_Nil)
    with assms(1) suffix_last [OF TrimLeftSpace_suffix that] show ?thesis by simp
  qed
  moreover have "hd (TrimRightSpace post) = CHR ''\<newline>''" if "TrimRightSpace post \<noteq> []"
  proof -
    from that have "post \<noteq> []" by (auto simp add: TrimRightSpace_Nil)
    with assms(2) prefix_hd [OF TrimRightSpace_prefix that] show ?thesis by simp
  qed
  ultimately show ?thesis by blast
qed


lemma take_length_append: "take (length xs) (xs @ ys) = xs"
  by simp

lemma frontmatter_no_hyphens:
  assumes "\<not> sublist ''---'' name" and "recognised b"
  shows "\<not> sublist ''---'' ((''\<newline>'' @ name) @ '': '' @ b @ ''\<newline>--'')"
proof
  assume "sublist ''---'' ((''\<newline>'' @ name) @ '': '' @ b @ ''\<newline>--'')"
  then consider "sublist ''---'' (''\<newline>'' @ name)"
    | "sublist ''---'' ('': '' @ b @ ''\<newline>--'')"
    | xs1 xs2 where "''---'' = xs1 @ xs2" "suffix xs1 (''\<newline>'' @ name)"
        "prefix xs2 ('': '' @ b @ ''\<newline>--'')"
    unfolding sublist_append by blast
  then show False
  proof cases
    case 1
    with assms(1) show False by (simp add: sublist_Cons_right)
  next
    case 2
    with recognised_cases [OF assms(2)] show False
      by (auto simp add: sublist_Cons_right)
  next
    case 3
    show False
    proof (cases xs2)
      case Nil
      with 3 have "suffix ''---'' (''\<newline>'' @ name)" by simp
      then have "sublist ''---'' (''\<newline>'' @ name)" by (rule suffix_imp_sublist)
      with assms(1) show False by (simp add: sublist_Cons_right)
    next
      case (Cons x xs2')
      with 3(3) have "x = CHR '':''" by simp
      with 3(1) Cons have "CHR '':'' \<in> set ''---''"
        by (metis in_set_conv_decomp)
      then show False by simp
    qed
  qed
qed

lemma Parse_wellformed:
  assumes "validName name" and "\<not> sublist ''---'' name" and "recognised b"
  shows "Parse (''---\<newline>'' @ name @ '': '' @ b @ ''\<newline>---'' @ tail) f =
     Inr \<lparr>filepath = f, repoName = name, bump = b,
          summary = TrimSpace (TrimRightSpace tail)\<rparr>"
proof -
  let ?u = "''\<newline>'' @ name @ '': '' @ b"
  let ?w = "?u @ ''\<newline>''"
  let ?T = "TrimRightSpace tail"
  have "TrimSpace (''---'' @ ?u @ ''\<newline>---'' @ tail) = ''---'' @ TrimRightSpace (?u @ ''\<newline>---'' @ tail)"
    by (rule TrimSpace_document)
  moreover have "TrimRightSpace ((?u @ ''\<newline>--'') @ CHR ''-'' # tail) = (?u @ ''\<newline>--'') @ CHR ''-'' # ?T"
    using hyphen_not_space by (rule TrimRightSpace_stop)
  ultimately have trimmed: "TrimSpace (''---\<newline>'' @ name @ '': '' @ b @ ''\<newline>---'' @ tail)
      = ''---'' @ ?w @ ''---'' @ ?T" by simp
  have "\<not> sublist ''---'' (?w @ butlast ''---'')"
    using frontmatter_no_hyphens [OF assms(2,3)] by simp
  then have idx: "Index (?w @ ''---'' @ ?T) ''---'' = Some (length ?w)"
    by (rule Index_append_first) simp
  have tk: "take (length ?w) (?w @ ''---'' @ ?T) = ?w" by (rule take_length_append)
  have "drop (length ?w + 3) (?w @ ''---'' @ ?T) = drop 3 (''---'' @ ?T)"
    by (rule drop_length_plus)
  then have dr: "drop (length ?w + 3) (?w @ ''---'' @ ?T) = ?T" by simp
  have "TrimSpace ?u = name @ '': '' @ b" by (rule TrimSpace_frontmatter [OF assms(1,3)])
  moreover have "TrimLeftSpace (''\<newline>'' @ name @ CHR '':'' # ('' '' @ b @ ''\<newline>''))
      = TrimLeftSpace (name @ CHR '':'' # ('' '' @ b @ ''\<newline>''))"
    by (simp add: TrimLeftSpace_newline)
  moreover have "TrimLeftSpace (name @ CHR '':'' # ('' '' @ b @ ''\<newline>''))
      = TrimLeftSpace name @ CHR '':'' # ('' '' @ b @ ''\<newline>'')"
    using colon_not_space by (rule TrimLeftSpace_stop)
  moreover have "TrimLeftSpace (''\<newline>'' @ name @ CHR '':'' # ('' '' @ b))
      = TrimLeftSpace (name @ CHR '':'' # ('' '' @ b))"
    by (simp add: TrimLeftSpace_newline)
  moreover have "TrimLeftSpace (name @ CHR '':'' # ('' '' @ b))
      = TrimLeftSpace name @ CHR '':'' # ('' '' @ b)"
    using colon_not_space by (rule TrimLeftSpace_stop)
  moreover have "TrimRightSpace ((TrimLeftSpace name @ '': '' @ b) @ ''\<newline>'')
      = TrimRightSpace (TrimLeftSpace name @ '': '' @ b)"
    by (rule TrimRightSpace_newline)
  ultimately have fm: "TrimSpace ?w = name @ '': '' @ b"
    by (simp add: TrimSpace_def)
  have sp: "SplitN (name @ '': '' @ b) '':'' 2 = [name, '' '' @ b]"
    using assms(1) by (intro SplitN_frontmatter) (simp add: validName_def)
  have tn: "TrimSpace name = name" using assms(1) by (simp add: validName_def)
  have tb: "TrimSpace ('' '' @ b) = b" by (rule TrimSpace_bump [OF assms(3)])
  have pb: "parseBumpType b = Inr b" using assms(3) by (simp add: parseBumpType_def recognised_def)
  have rest: "drop 3 (''---'' @ ?w @ ''---'' @ ?T) = ?w @ ''---'' @ ?T" by simp
  have hp: "HasPrefix (''---'' @ ?w @ ''---'' @ ?T) ''---''" by (simp add: HasPrefix_def)
  show ?thesis
    unfolding Parse_def trimmed Let_def rest idx option.case tk dr fm sp
    using hp tn tb pb by simp
qed

lemma parseChangeset_after_opening:
  "parseChangeset (''---'' @ r) f =
     (case Index (TrimRightSpace r) ''\<newline>---'' of
        None \<Rightarrow> Inl MissingClosingDelimiter
      | Some idx \<Rightarrow>
          let frontmatter = TrimSpace (take idx (TrimRightSpace r));
              body = TrimSpace (drop (idx + 4) (TrimRightSpace r));
              parts = SplitN frontmatter '':'' 2
          in if length parts \<noteq> 2 then Inl InvalidFrontmatterFormat
             else case parseBumpType (TrimSpace (parts ! 1)) of
                    Inl err \<Rightarrow> Inl err
                  | Inr b \<Rightarrow> Inr \<lparr>filepath = f, repoName = TrimSpace (parts ! 0),
                                  bump = b, summary = body\<rparr>)"
  unfolding parseChangeset_def TrimSpace_document
  by (simp add: Let_def HasPrefix_def split: option.split)

lemma sublist_TrimRightSpace:
  "sublist ''\<newline>---'' (TrimRightSpace r) \<longleftrightarrow> sublist ''\<newline>---'' r"
proof
  assume "sublist ''\<newline>---'' (TrimRightSpace r)"
  moreover have "sublist (TrimRightSpace r) r"
    using TrimRightSpace_prefix by (rule prefix_imp_sublist)
  ultimately show "sublist ''\<newline>---'' r" by (rule sublist_order.order.trans)
next
  assume "sublist ''\<newline>---'' r"
  then obtain ps ss where r: "r = ps @ ''\<newline>---'' @ ss" unfolding sublist_def by blast
  have "TrimRightSpace ((ps @ ''\<newline>--'') @ CHR ''-'' # ss)
      = (ps @ ''\<newline>--'') @ CHR ''-'' # TrimRightSpace ss"
    using hyphen_not_space by (rule TrimRightSpace_stop)
  with r have "TrimRightSpace r = ps @ ''\<newline>---'' @ TrimRightSpace ss" by simp
  then show "sublist ''\<newline>---'' (TrimRightSpace r)"
    unfolding sublist_def by blast
qed

lemma parseChangeset_closing_delimiter:
  assumes "HasPrefix content ''---''"
  shows "parseChangeset content f = Inl MissingClosingDelimiter
     \<longleftrightarrow> \<not> sublist ''\<newline>---'' (drop 3 content)"
proof -
  from assms obtain r where c: "content = ''---'' @ r"
    by (auto simp add: HasPrefix_def prefix_def)
  have "parseChangeset (''---'' @ r) f = Inl MissingClosingDelimiter
      \<longleftrightarrow> Index (TrimRightSpace r) ''\<newline>---'' = None"
    unfolding parseChangeset_after_opening
    by (auto simp add: Let_def parseBumpType_def split: option.splits sum.splits)
  also have "\<dots> \<longleftrightarrow> \<not> sublist ''\<newline>---'' r"
    by (simp add: Index_None_iff sublist_TrimRightSpace)
  finally show ?thesis using c by simp
qed

lemma parseChangeset_first_delimiter:
  assumes "\<not> sublist ''\<newline>---'' (u @ ''\<newline>--'')"
    and "parseChangeset (''---'' @ u @ ''\<newline>---'' @ v) f = Inr cs"
  shows "summary cs = TrimSpace (TrimRightSpace v)"
proof -
  let ?R = "u @ ''\<newline>---'' @ TrimRightSpace v"
  have "TrimRightSpace ((u @ ''\<newline>--'') @ CHR ''-'' # v)
      = (u @ ''\<newline>--'') @ CHR ''-'' # TrimRightSpace v"
    using hyphen_not_space by (rule TrimRightSpace_stop)
  then have R: "TrimRightSpace (u @ ''\<newline>---'' @ v) = ?R" by simp
  have "\<not> sublist ''\<newline>---'' (u @ butlast ''\<newline>---'')" using assms(1) by simp
  then have idx: "Index ?R ''\<newline>---'' = Some (length u)"
    by (rule Index_append_first) simp
  have "drop (length u + 4) ?R = drop 4 (''\<newline>---'' @ TrimRightSpace v)"
    by (rule drop_length_plus)
  then have dr: "drop (length u + 4) ?R = TrimRightSpace v" by simp
  from assms(2) show ?thesis
    unfolding parseChangeset_after_opening R idx option.case Let_def dr
    by (auto split: if_splits sum.splits)
qed


lemma parseChangeset_keeps_horizontal_rule:
  assumes "validName name" and "recognised b"
    and "pre = [] \<or> last pre = CHR ''\<newline>''"
    and "post = [] \<or> hd post = CHR ''\<newline>''"
  shows "parseChangeset
           (''---\<newline>'' @ name @ '': '' @ b @ ''\<newline>---\<newline>'' @ pre @ ''---'' @ post) f =
         Inr \<lparr>filepath = f, repoName = name, bump = b,
              summary = TrimLeftSpace pre @ ''---'' @ TrimRightSpace post\<rparr>
       \<and> (TrimLeftSpace pre = [] \<or> last (TrimLeftSpace pre) = CHR ''\<newline>'')
       \<and> (TrimRightSpace post = [] \<or> hd (TrimRightSpace post) = CHR ''\<newline>'')"
proof -
  have doc: "''---\<newline>'' @ name @ '': '' @ b @ ''\<newline>---\<newline>'' @ pre @ ''---'' @ post
      = ''---\<newline>'' @ name @ '': '' @ b @ ''\<newline>---'' @ (''\<newline>'' @ pre @ ''---'' @ post)"
    by simp
  have flat: "parseChangeset
      (''---\<newline>'' @ name @ '': '' @ b @ ''\<newline>---\<newline>'' @ pre @ ''---'' @ post) f =
    Inr \<lparr>filepath = f, repoName = name, bump = b,
         summary = TrimLeftSpace pre @ ''---'' @ TrimRightSpace post\<rparr>"
    unfolding doc
    by (simp only: parseChangeset_wellformed [OF assms(1,2)] TrimSpace_around_rule)
  from flat rule_stays_a_line [OF assms(3,4)] show ?thesis by blast
qed

lemma Parse_keeps_horizontal_rule:
  assumes "validName name" and "\<not> sublist ''---'' name" and "recognised b"
  shows "Parse
           (''---\<newline>'' @ name @ '': '' @ b @ ''\<newline>---\<newline>'' @ pre @ ''---'' @ post) f =
         Inr \<lparr>filepath = f, repoName = name, bump = b,
              summary = TrimLeftSpace pre @ ''---'' @ TrimRightSpace post\<rparr>"
proof -
  have doc: "''---\<newline>'' @ name @ '': '' @ b @ ''\<newline>---\<newline>'' @ pre @ ''---'' @ post
      = ''---\<newline>'' @ name @ '': '' @ b @ ''\<newline>---'' @ (''\<newline>'' @ pre @ ''---'' @ post)"
    by simp
  show ?thesis
    unfolding doc
    by (simp only: Parse_wellformed [OF assms] TrimSpace_around_rule)
qed

text \<open>
  Claim C7. A changeset document with well-formed frontmatter whose body has a line that
  is exactly \<open>---\<close> parses successfully, and that line is kept in the summary.
  \<open>parseChangeset\<close> does this for every valid package name
  (\<open>parseChangeset_keeps_horizontal_rule\<close>). \<open>Parse\<close> of the internal package does it
  only when the name has no \<open>---\<close> in it (\<open>Parse_keeps_horizontal_rule\<close>): it searches
  for three hyphens anywhere, so on the document below, whose package name
  \<open>my---repo\<close> is valid and whose body has a horizontal rule, it stops inside the name
  and fails with the invalid-frontmatter error, where \<open>parseChangeset\<close> succeeds and
  keeps the rule.
\<close>

theorem Parse_rejects_rule_document_with_hyphenated_name:
  "validName ''my---repo''
   \<and> parseChangeset
       ''---\<newline>my---repo: minor\<newline>---\<newline>\<newline>Some summary\<newline>\<newline>---\<newline>\<newline>More''
       ''a.md'' =
     Inr \<lparr>filepath = ''a.md'', repoName = ''my---repo'', bump = minor,
          summary = ''Some summary\<newline>\<newline>---\<newline>\<newline>More''\<rparr>
   \<and> Parse
       ''---\<newline>my---repo: minor\<newline>---\<newline>\<newline>Some summary\<newline>\<newline>---\<newline>\<newline>More''
       ''a.md'' = Inl InvalidFrontmatterFormat"
  by code_simp

text \<open>
  Claim C1. The closing delimiter is the first newline followed by three hyphens after
  the opening delimiter, and an input that begins with the opening delimiter but has no
  such newline-anchored delimiter is rejected as missing its closing delimiter.
  \<open>parseChangeset\<close> does this (\<open>parseChangeset_closing_delimiter\<close>,
  \<open>parseChangeset_first_delimiter\<close>). \<open>Parse\<close> of the internal package searches for
  three hyphens anywhere: on the input below, which has no newline-anchored closing
  delimiter, it returns a changeset instead of the error.
\<close>

theorem Parse_accepts_unanchored_delimiter:
  "HasPrefix ''---\<newline>repo: patch --- oops'' ''---''
   \<and> \<not> sublist ''\<newline>---'' (drop 3 ''---\<newline>repo: patch --- oops'')
   \<and> Parse ''---\<newline>repo: patch --- oops'' ''a.md'' =
       Inr \<lparr>filepath = ''a.md'', repoName = ''repo'', bump = patch, summary = ''oops''\<rparr>
   \<and> parseChangeset ''---\<newline>repo: patch --- oops'' ''a.md'' = Inl MissingClosingDelimiter"
  by code_simp

section \<open>The next version\<close>

lemma calculateNextVersion_empty:
  "calculateNextVersion semver (Inr cfg) (Inr []) = Inr (Version cfg, [])"
  by (simp add: calculateNextVersion_def)

lemma calculateNextVersion_valid:
  assumes "NewVersion semver (TrimPrefix (Version cfg) ''v'') = Some ver"
    and "changes \<noteq> []"
  shows "calculateNextVersion semver (Inr cfg) (Inr changes) =
     Inr (''v'' @ String semver
                   (if highestBump changes = major then IncMajor semver ver
                    else if highestBump changes = minor then IncMinor semver ver
                    else IncPatch semver ver), changes)"
proof -
  have "highestBump changes = major \<or> highestBump changes = minor \<or> highestBump changes = patch"
    by (simp add: highestBump_char)
  then show ?thesis
    using assms by (auto simp add: calculateNextVersion_def Let_def)
qed

lemma calculateNextVersion_invalid:
  assumes "NewVersion semver (TrimPrefix (Version cfg) ''v'') = None" and "changes \<noteq> []"
  shows "calculateNextVersion semver (Inr cfg) (Inr changes) = Inl (InvalidVersion (Version cfg))"
  using assms by (simp add: calculateNextVersion_def Let_def)

lemma specString_plain:
  "specString \<lparr>vmajor = a, vminor = b, vpatch = c, vpre = [], vmetadata = []\<rparr>
     = showNat a @ ''.'' @ showNat b @ ''.'' @ showNat c"
  by (simp add: specString_def)

lemma showNat_0: "showNat 0 = ''0''"
  by code_simp

lemma calculateNextVersion_bumps:
  assumes "NewVersion specSemver (TrimPrefix cur ''v'') = Some ver"
  shows "calculateNextVersion specSemver (Inr \<lparr>Version = cur\<rparr>) (Inr []) = Inr (cur, [])
    \<and> (changes \<noteq> [] \<and> highestBump changes = major \<longrightarrow>
         calculateNextVersion specSemver (Inr \<lparr>Version = cur\<rparr>) (Inr changes) =
           Inr (''v'' @ showNat (vmajor ver + 1) @ ''.0.0'', changes))
    \<and> (changes \<noteq> [] \<and> highestBump changes = minor \<longrightarrow>
         calculateNextVersion specSemver (Inr \<lparr>Version = cur\<rparr>) (Inr changes) =
           Inr (''v'' @ showNat (vmajor ver) @ ''.'' @ showNat (vminor ver + 1) @ ''.0'', changes))
    \<and> (changes \<noteq> [] \<and> highestBump changes = patch \<longrightarrow>
         calculateNextVersion specSemver (Inr \<lparr>Version = cur\<rparr>) (Inr changes) =
           Inr (''v'' @ showNat (vmajor ver) @ ''.'' @ showNat (vminor ver) @ ''.''
                  @ showNat (vpatch ver + 1), changes))
    \<and> (highestBump changes = major \<or> highestBump changes = minor
         \<or> highestBump changes = patch)"
proof -
  have v: "NewVersion specSemver (TrimPrefix (Version \<lparr>Version = cur\<rparr>) ''v'') = Some ver"
    using assms by simp
  have e: "calculateNextVersion specSemver (Inr \<lparr>Version = cur\<rparr>) (Inr []) = Inr (cur, [])"
    by (simp add: calculateNextVersion_empty)
  have h: "highestBump changes = major \<or> highestBump changes = minor
      \<or> highestBump changes = patch"
    by (simp add: highestBump_char)
  have inc: "String specSemver (IncMajor specSemver ver) = showNat (vmajor ver + 1) @ ''.0.0''"
    "String specSemver (IncMinor specSemver ver)
       = showNat (vmajor ver) @ ''.'' @ showNat (vminor ver + 1) @ ''.0''"
    "String specSemver (IncPatch specSemver ver)
       = showNat (vmajor ver) @ ''.'' @ showNat (vminor ver) @ ''.'' @ showNat (vpatch ver + 1)"
    by (simp_all add: specSemver_def specIncMajor_def specIncMinor_def specIncPatch_def
        specString_plain showNat_0)
  from e h calculateNextVersion_valid [OF v, of changes] show ?thesis
    using bump_consts_distinct by (auto simp add: inc)
qed

text \<open>
  Claim C3. For a current version whose remainder after the optional \<open>v\<close> is a valid
  semantic version: with nothing pending the current version string is returned unchanged
  and without error; with changesets pending the highest bump is applied. A major bump
  increments major and resets minor and patch, a minor bump increments minor and resets
  patch, a patch bump increments patch, and the result carries no pre-release or build
  metadata. In particular \<open>v1.0.0\<close> becomes \<open>v1.0.1\<close>, \<open>v1.1.0\<close>, \<open>v2.0.0\<close> under a patch,
  minor, major changeset and stays \<open>v1.0.0\<close> with none. The library is the one the spec
  describes.
\<close>

theorem next_version_applies_highest_bump:
  assumes "NewVersion specSemver (TrimPrefix cur ''v'') = Some ver"
  shows "(calculateNextVersion specSemver (Inr \<lparr>Version = cur\<rparr>) (Inr []) = Inr (cur, [])
    \<and> (changes \<noteq> [] \<and> highestBump changes = major \<longrightarrow>
         calculateNextVersion specSemver (Inr \<lparr>Version = cur\<rparr>) (Inr changes) =
           Inr (''v'' @ showNat (vmajor ver + 1) @ ''.0.0'', changes))
    \<and> (changes \<noteq> [] \<and> highestBump changes = minor \<longrightarrow>
         calculateNextVersion specSemver (Inr \<lparr>Version = cur\<rparr>) (Inr changes) =
           Inr (''v'' @ showNat (vmajor ver) @ ''.'' @ showNat (vminor ver + 1) @ ''.0'', changes))
    \<and> (changes \<noteq> [] \<and> highestBump changes = patch \<longrightarrow>
         calculateNextVersion specSemver (Inr \<lparr>Version = cur\<rparr>) (Inr changes) =
           Inr (''v'' @ showNat (vmajor ver) @ ''.'' @ showNat (vminor ver) @ ''.''
                  @ showNat (vpatch ver + 1), changes))
    \<and> (highestBump changes = major \<or> highestBump changes = minor
         \<or> highestBump changes = patch))
    \<and> (calculateNextVersion specSemver (Inr \<lparr>Version = ''v1.0.0''\<rparr>) (Inr [\<lparr>filepath = ''a.md'', repoName = ''r'', bump = patch, summary = ''s''\<rparr>])
        = Inr (''v1.0.1'', [\<lparr>filepath = ''a.md'', repoName = ''r'', bump = patch, summary = ''s''\<rparr>])
      \<and> calculateNextVersion specSemver (Inr \<lparr>Version = ''v1.0.0''\<rparr>) (Inr [\<lparr>filepath = ''a.md'', repoName = ''r'', bump = minor, summary = ''s''\<rparr>])
        = Inr (''v1.1.0'', [\<lparr>filepath = ''a.md'', repoName = ''r'', bump = minor, summary = ''s''\<rparr>])
      \<and> calculateNextVersion specSemver (Inr \<lparr>Version = ''v1.0.0''\<rparr>) (Inr [\<lparr>filepath = ''a.md'', repoName = ''r'', bump = major, summary = ''s''\<rparr>])
        = Inr (''v2.0.0'', [\<lparr>filepath = ''a.md'', repoName = ''r'', bump = major, summary = ''s''\<rparr>])
      \<and> calculateNextVersion specSemver (Inr \<lparr>Version = ''v1.0.0''\<rparr>) (Inr [])
        = Inr (''v1.0.0'', []))"
proof (rule conjI)
  show "calculateNextVersion specSemver (Inr \<lparr>Version = cur\<rparr>) (Inr []) = Inr (cur, [])
    \<and> (changes \<noteq> [] \<and> highestBump changes = major \<longrightarrow>
         calculateNextVersion specSemver (Inr \<lparr>Version = cur\<rparr>) (Inr changes) =
           Inr (''v'' @ showNat (vmajor ver + 1) @ ''.0.0'', changes))
    \<and> (changes \<noteq> [] \<and> highestBump changes = minor \<longrightarrow>
         calculateNextVersion specSemver (Inr \<lparr>Version = cur\<rparr>) (Inr changes) =
           Inr (''v'' @ showNat (vmajor ver) @ ''.'' @ showNat (vminor ver + 1) @ ''.0'', changes))
    \<and> (changes \<noteq> [] \<and> highestBump changes = patch \<longrightarrow>
         calculateNextVersion specSemver (Inr \<lparr>Version = cur\<rparr>) (Inr changes) =
           Inr (''v'' @ showNat (vmajor ver) @ ''.'' @ showNat (vminor ver) @ ''.''
                  @ showNat (vpatch ver + 1), changes))
    \<and> (highestBump changes = major \<or> highestBump changes = minor
         \<or> highestBump changes = patch)"
    by (rule calculateNextVersion_bumps [OF assms])
  show "calculateNextVersion specSemver (Inr \<lparr>Version = ''v1.0.0''\<rparr>) (Inr [\<lparr>filepath = ''a.md'', repoName = ''r'', bump = patch, summary = ''s''\<rparr>])
        = Inr (''v1.0.1'', [\<lparr>filepath = ''a.md'', repoName = ''r'', bump = patch, summary = ''s''\<rparr>])
      \<and> calculateNextVersion specSemver (Inr \<lparr>Version = ''v1.0.0''\<rparr>) (Inr [\<lparr>filepath = ''a.md'', repoName = ''r'', bump = minor, summary = ''s''\<rparr>])
        = Inr (''v1.1.0'', [\<lparr>filepath = ''a.md'', repoName = ''r'', bump = minor, summary = ''s''\<rparr>])
      \<and> calculateNextVersion specSemver (Inr \<lparr>Version = ''v1.0.0''\<rparr>) (Inr [\<lparr>filepath = ''a.md'', repoName = ''r'', bump = major, summary = ''s''\<rparr>])
        = Inr (''v2.0.0'', [\<lparr>filepath = ''a.md'', repoName = ''r'', bump = major, summary = ''s''\<rparr>])
      \<and> calculateNextVersion specSemver (Inr \<lparr>Version = ''v1.0.0''\<rparr>) (Inr [])
        = Inr (''v1.0.0'', [])"
    by code_simp
qed

theorem next_version_applies_highest_bump_witness:
  "calculateNextVersion specSemver (Inr \<lparr>Version = ''v1.2.3-rc.1+build.7''\<rparr>)
      (Inr [\<lparr>filepath = ''a.md'', repoName = ''r'', bump = minor, summary = ''s''\<rparr>])
    = Inr (''v1.3.0'', [\<lparr>filepath = ''a.md'', repoName = ''r'', bump = minor, summary = ''s''\<rparr>])"
proof -
  let ?c = "\<lparr>filepath = ''a.md'', repoName = ''r'', bump = minor, summary = ''s''\<rparr>"
  let ?v = "\<lparr>vmajor = 1, vminor = 2, vpatch = 3, vpre = ''rc.1'', vmetadata = ''build.7''\<rparr>"
  have v: "NewVersion specSemver (TrimPrefix ''v1.2.3-rc.1+build.7'' ''v'') = Some ?v"
    by code_simp
  have h: "[?c] \<noteq> [] \<and> highestBump [?c] = minor" by code_simp
  have s: "showNat (Suc 0) = ''1''" "showNat 3 = ''3''" by code_simp+
  from next_version_applies_highest_bump [OF v, of "[?c]"] h
  have "calculateNextVersion specSemver (Inr \<lparr>Version = ''v1.2.3-rc.1+build.7''\<rparr>) (Inr [?c]) =
      Inr (''v'' @ showNat (vmajor ?v) @ ''.'' @ showNat (vminor ?v + 1) @ ''.0'', [?c])"
    by blast
  then show ?thesis by (simp add: s)
qed

text \<open>
  Claim C4, as amended. When the library rejects the current version string stripped of
  its optional \<open>v\<close> (it is not a valid semantic version), \<open>calculateNextVersion\<close> fails
  with the invalid-version error for every non-empty pending sequence. With an empty
  pending sequence it returns the current version string unchanged and without error,
  before any parsing (the claim as stated, which includes the empty sequence, fails
  there). This holds for every implementation of the library.
\<close>

theorem invalid_version_rejected_when_pending:
  assumes "NewVersion semver (TrimPrefix cur ''v'') = None"
  shows "(changes \<noteq> [] \<longrightarrow>
          calculateNextVersion semver (Inr \<lparr>Version = cur\<rparr>) (Inr changes)
            = Inl (InvalidVersion cur))
       \<and> calculateNextVersion semver (Inr \<lparr>Version = cur\<rparr>) (Inr []) = Inr (cur, [])"
  using assms calculateNextVersion_invalid [of semver "\<lparr>Version = cur\<rparr>" changes]
  by (simp add: calculateNextVersion_empty)

theorem invalid_version_rejected_when_pending_witness:
  "calculateNextVersion specSemver (Inr \<lparr>Version = ''not-a-version''\<rparr>)
      (Inr [\<lparr>filepath = ''a.md'', repoName = ''test'', bump = patch, summary = ''Fix''\<rparr>])
    = Inl (InvalidVersion ''not-a-version'')"
proof -
  have n: "NewVersion specSemver (TrimPrefix ''not-a-version'' ''v'') = None" by code_simp
  from invalid_version_rejected_when_pending [OF n,
      of "[\<lparr>filepath = ''a.md'', repoName = ''test'', bump = patch, summary = ''Fix''\<rparr>]"]
  show ?thesis by simp
qed

theorem invalid_version_accepted_when_nothing_pending:
  "NewVersion specSemver (TrimPrefix ''not-a-version'' ''v'') = None
   \<and> calculateNextVersion specSemver (Inr \<lparr>Version = ''not-a-version''\<rparr>) (Inr [])
       = Inr (''not-a-version'', [])"
  by code_simp

text \<open>
  Claim C5, as amended. For a valid current version and a non-empty pending sequence the
  next version string always begins with \<open>v\<close>, whether or not the current version string
  did (the claim as stated, that the prefix is present exactly when the input used it,
  fails for an input without the prefix). This holds for every implementation of the
  library.
\<close>

theorem next_version_always_prefixed:
  assumes "NewVersion semver (TrimPrefix cur ''v'') = Some ver" and "changes \<noteq> []"
  shows "\<exists>next. calculateNextVersion semver (Inr \<lparr>Version = cur\<rparr>) (Inr changes)
             = Inr (next, changes)
           \<and> HasPrefix next ''v''"
proof -
  have v: "NewVersion semver (TrimPrefix (Version \<lparr>Version = cur\<rparr>) ''v'') = Some ver"
    using assms(1) by simp
  show ?thesis
    unfolding calculateNextVersion_valid [OF v assms(2)]
    by (simp add: HasPrefix_def)
qed

theorem next_version_always_prefixed_witness:
  "\<exists>next. calculateNextVersion specSemver (Inr \<lparr>Version = ''1.0.0''\<rparr>)
        (Inr [\<lparr>filepath = ''a.md'', repoName = ''r'', bump = patch, summary = ''s''\<rparr>])
      = Inr (next, [\<lparr>filepath = ''a.md'', repoName = ''r'', bump = patch, summary = ''s''\<rparr>])
      \<and> HasPrefix next ''v''"
proof -
  have v: "NewVersion specSemver (TrimPrefix ''1.0.0'' ''v'')
      = Some \<lparr>vmajor = 1, vminor = 0, vpatch = 0, vpre = [], vmetadata = []\<rparr>"
    by code_simp
  have n: "[\<lparr>filepath = ''a.md'', repoName = ''r'', bump = patch, summary = ''s''\<rparr>] \<noteq> []"
    by simp
  from next_version_always_prefixed [OF v n] show ?thesis .
qed

theorem unprefixed_version_gains_prefix:
  "\<not> HasPrefix ''1.0.0'' ''v''
   \<and> calculateNextVersion specSemver (Inr \<lparr>Version = ''1.0.0''\<rparr>)
        (Inr [\<lparr>filepath = ''a.md'', repoName = ''r'', bump = patch, summary = ''s''\<rparr>])
      = Inr (''v1.0.1'', [\<lparr>filepath = ''a.md'', repoName = ''r'', bump = patch, summary = ''s''\<rparr>])"
  by code_simp

section \<open>Rendering and merging the changelog\<close>

lemma writeEntries_concat:
  "writeEntries sha sb items = sb @ concat (map (renderEntry sha) items)"
  by (induction items arbitrary: sb) (simp_all add: renderEntry_def Let_def)

lemma writeGroup_render:
  "writeGroup sha sb title items = sb @ renderGroup sha title items"
  by (simp add: writeGroup_def renderGroup_def writeEntries_concat)

lemma groupChanges_lookup:
  "lookupGroup (groupChanges gs changes) b
     = lookupGroup gs b @ filter (\<lambda>c. bump c = b) changes"
proof (induction changes arbitrary: gs)
  case Nil
  show ?case by simp
next
  case (Cons c rest)
  let ?gs = "gs(bump c \<mapsto> lookupGroup gs (bump c) @ [c])"
  have step: "lookupGroup ?gs b = lookupGroup gs b @ (if bump c = b then [c] else [])"
    by (simp add: lookupGroup_def)
  have "lookupGroup (groupChanges gs (c # rest)) b = lookupGroup (groupChanges ?gs rest) b"
    by simp
  also have "\<dots> = lookupGroup ?gs b @ filter (\<lambda>c. bump c = b) rest"
    by (rule Cons.IH)
  also have "\<dots> = (lookupGroup gs b @ (if bump c = b then [c] else []))
      @ filter (\<lambda>c. bump c = b) rest"
    by (simp only: step)
  also have "\<dots> = lookupGroup gs b @ filter (\<lambda>c. bump c = b) (c # rest)"
    by simp
  finally show ?case .
qed

lemma initial_groups_empty:
  "lookupGroup [major \<mapsto> [], minor \<mapsto> [], patch \<mapsto> []] b = []"
  by (simp add: lookupGroup_def)

text \<open>
  Claim C8. The changelog section is the release header followed by the groups in the
  fixed order Major Changes, Minor Changes, Patch Changes. Each group holds the
  changesets of its bump type in their order in the input; a group without members
  contributes nothing, not even its heading. Each entry is \<open>- <reference>: <summary>\<close>
  when the commit lookup gives a non-empty reference and \<open>- <summary>\<close> otherwise.
\<close>

theorem changelog_section_grouped:
  "buildChangelogSection commitLookup date ver changes =
     ''## '' @ ver @ '' - '' @ date @ ''\<newline>''
     @ renderGroup commitLookup ''Major Changes'' (filter (\<lambda>c. bump c = major) changes)
     @ renderGroup commitLookup ''Minor Changes'' (filter (\<lambda>c. bump c = minor) changes)
     @ renderGroup commitLookup ''Patch Changes'' (filter (\<lambda>c. bump c = patch) changes)"
  by (simp add: buildChangelogSection_def Let_def writeGroup_render groupChanges_lookup
      initial_groups_empty)

theorem changelog_section_grouped_witness:
  "buildChangelogSection (\<lambda>p. if p = ''b.md'' then ''abc1234'' else []) ''2026-01-02'' ''v2.0.0''
     [\<lparr>filepath = ''a.md'', repoName = ''r'', bump = patch, summary = ''Fix one''\<rparr>,
      \<lparr>filepath = ''b.md'', repoName = ''r'', bump = major, summary = ''Break''\<rparr>,
      \<lparr>filepath = ''c.md'', repoName = ''r'', bump = patch, summary = ''Fix two''\<rparr>]
   = ''## v2.0.0 - 2026-01-02\<newline>\<newline>### Major Changes\<newline>\<newline>- abc1234: Break\<newline>\<newline>### Patch Changes\<newline>\<newline>- Fix one\<newline>- Fix two\<newline>''"
  using changelog_section_grouped [of "\<lambda>p. if p = ''b.md'' then ''abc1234'' else []"
      "''2026-01-02''" "''v2.0.0''"
      "[\<lparr>filepath = ''a.md'', repoName = ''r'', bump = patch, summary = ''Fix one''\<rparr>,
        \<lparr>filepath = ''b.md'', repoName = ''r'', bump = major, summary = ''Break''\<rparr>,
        \<lparr>filepath = ''c.md'', repoName = ''r'', bump = patch, summary = ''Fix two''\<rparr>]"]
  by (simp add: renderGroup_def renderEntry_def major_def minor_def patch_def)

lemma Index_char:
  "Index s [c] = (if c \<in> set s then Some (length (takeWhile (\<lambda>x. x \<noteq> c) s)) else None)"
  by (induction s) auto

lemma firstLine_no_newline: "CHR ''\<newline>'' \<notin> set (firstLine doc)"
  unfolding firstLine_def by (auto dest: set_takeWhileD)

lemma firstLine_append_newline:
  "firstLine (firstLine doc @ CHR ''\<newline>'' # rest) = firstLine doc"
proof -
  have "takeWhile (\<lambda>c. c \<noteq> CHR ''\<newline>'') (firstLine doc @ CHR ''\<newline>'' # rest)
      = firstLine doc @ takeWhile (\<lambda>c. c \<noteq> CHR ''\<newline>'') (CHR ''\<newline>'' # rest)"
    using firstLine_no_newline [of doc] by (intro takeWhile_append2) auto
  then show ?thesis by (simp add: firstLine_def)
qed

lemma split_first_line:
  assumes "CHR ''\<newline>'' \<in> set doc"
  shows "doc = firstLine doc @ CHR ''\<newline>'' # drop (Suc (length (firstLine doc))) doc"
proof -
  let ?P = "\<lambda>c. c \<noteq> CHR ''\<newline>''"
  have d: "doc = takeWhile ?P doc @ dropWhile ?P doc" by simp
  from assms have ne: "dropWhile ?P doc \<noteq> []" by (auto simp add: dropWhile_eq_Nil_conv)
  then have "\<not> ?P (hd (dropWhile ?P doc))" by (rule hd_dropWhile)
  with ne obtain r where r: "dropWhile ?P doc = CHR ''\<newline>'' # r"
    by (cases "dropWhile ?P doc") auto
  with d have e: "doc = firstLine doc @ CHR ''\<newline>'' # r" by (simp add: firstLine_def)
  then have "drop (Suc (length (firstLine doc))) doc
      = drop (Suc (length (firstLine doc))) (firstLine doc @ CHR ''\<newline>'' # r)" by simp
  also have "\<dots> = r" by simp
  finally show ?thesis using e by simp
qed

lemma prependChangelog_heading:
  assumes "HasPrefix existing ''# ''"
  shows "prependChangelog (Some existing) section' =
     firstLine existing @ ''\<newline>\<newline>'' @ section'
     @ (if CHR ''\<newline>'' \<in> set existing
        then ''\<newline>'' @ TrimLeft (drop (Suc (length (firstLine existing))) existing) ''\<newline>''
        else [])"
proof (cases "CHR ''\<newline>'' \<in> set existing")
  case True
  let ?n = "length (firstLine existing)"
  from assms have ne: "existing \<noteq> []" by (auto simp add: HasPrefix_def)
  have idx: "Index existing ''\<newline>'' = Some ?n"
    using True by (simp add: Index_char firstLine_def)
  have "take (Suc ?n) existing
      = take (Suc ?n) (firstLine existing @ CHR ''\<newline>'' # drop (Suc ?n) existing)"
    using split_first_line [OF True] by simp
  also have "\<dots> = firstLine existing @ ''\<newline>''" by simp
  finally have hd: "take (Suc ?n) existing = firstLine existing @ ''\<newline>''" .
  show ?thesis
    using True ne assms
    by (simp add: prependChangelog_def idx Let_def hd)
next
  case False
  from assms have ne: "existing \<noteq> []" by (auto simp add: HasPrefix_def)
  have idx: "Index existing ''\<newline>'' = None" using False by (simp add: Index_char)
  have fl: "firstLine existing = existing"
    using False unfolding firstLine_def by (intro takeWhile_eq_all_conv [THEN iffD2]) auto
  show ?thesis using False ne assms by (simp add: prependChangelog_def idx fl)
qed

lemma prependChangelog_first_line:
  assumes "HasPrefix existing ''# ''"
  shows "firstLine (prependChangelog (Some existing) section') = firstLine existing"
  unfolding prependChangelog_heading [OF assms]
  using firstLine_append_newline [of existing] by simp

lemma firstLine_heading: "HasPrefix doc ''# '' \<Longrightarrow> HasPrefix (firstLine doc) ''# ''"
  by (auto simp add: HasPrefix_def prefix_def firstLine_def)

lemma heading_of_firstLine: "HasPrefix (firstLine doc) ''# '' \<Longrightarrow> HasPrefix doc ''# ''"
proof -
  assume "HasPrefix (firstLine doc) ''# ''"
  then obtain r where "firstLine doc = ''# '' @ r" by (auto simp add: HasPrefix_def prefix_def)
  moreover have "doc = firstLine doc @ dropWhile (\<lambda>c. c \<noteq> CHR ''\<newline>'') doc"
    by (simp add: firstLine_def)
  ultimately have "doc = ''# '' @ r @ dropWhile (\<lambda>c. c \<noteq> CHR ''\<newline>'') doc" by simp
  then show ?thesis unfolding HasPrefix_def prefix_def by blast
qed

lemma repeated_merge_first_line:
  "HasPrefix doc ''# '' \<Longrightarrow>
   firstLine (foldl (\<lambda>d s. prependChangelog (Some d) s) doc sections) = firstLine doc"
proof (induction sections arbitrary: doc)
  case Nil
  show ?case by simp
next
  case (Cons s rest)
  let ?d = "prependChangelog (Some doc) s"
  have fl: "firstLine ?d = firstLine doc" by (rule prependChangelog_first_line [OF Cons.prems])
  with firstLine_heading [OF Cons.prems] have "HasPrefix (firstLine ?d) ''# ''" by simp
  then have "HasPrefix ?d ''# ''" by (rule heading_of_firstLine)
  from Cons.IH [OF this] fl show ?case by simp
qed

text \<open>
  Claim C9. If the existing document starts with \<open># \<close>, the merged document is the
  heading line, a blank line, the new section and then the rest of the existing document
  (its leading newlines collapsed) unchanged, so the heading is still the first line,
  also after any number of merges. If the existing document is empty or absent, the
  result is \<open># Changelog\<close>, a blank line and the new section. Hence a document whose
  first line is \<open># Changelog\<close> keeps exactly that first line however often a section
  is merged into it.
\<close>

theorem changelog_merge_keeps_heading:
  "(HasPrefix existing ''# '' \<longrightarrow>
      prependChangelog (Some existing) section' =
        firstLine existing @ ''\<newline>\<newline>'' @ section'
        @ (if CHR ''\<newline>'' \<in> set existing
           then ''\<newline>'' @ TrimLeft (drop (Suc (length (firstLine existing))) existing) ''\<newline>''
           else [])
      \<and> firstLine (prependChangelog (Some existing) section') = firstLine existing
      \<and> firstLine (foldl (\<lambda>d s. prependChangelog (Some d) s) existing sections)
          = firstLine existing)
   \<and> prependChangelog None section' = ''# Changelog\<newline>\<newline>'' @ section'
   \<and> prependChangelog (Some []) section' = ''# Changelog\<newline>\<newline>'' @ section'
   \<and> (firstLine doc = ''# Changelog'' \<longrightarrow>
        firstLine (foldl (\<lambda>d s. prependChangelog (Some d) s) doc sections) = ''# Changelog'')"
proof -
  have e: "prependChangelog None section' = ''# Changelog\<newline>\<newline>'' @ section'"
    "prependChangelog (Some []) section' = ''# Changelog\<newline>\<newline>'' @ section'"
    by (simp_all add: prependChangelog_def)
  have c: "firstLine (foldl (\<lambda>d s. prependChangelog (Some d) s) doc sections) = ''# Changelog''"
    if "firstLine doc = ''# Changelog''"
  proof -
    from that have "HasPrefix (firstLine doc) ''# ''" by (simp add: HasPrefix_def)
    then have "HasPrefix doc ''# ''" by (rule heading_of_firstLine)
    from repeated_merge_first_line [OF this] that show ?thesis by simp
  qed
  from e c prependChangelog_heading [of existing section']
    prependChangelog_first_line [of existing section']
    repeated_merge_first_line [of existing sections]
  show ?thesis by blast
qed

theorem changelog_merge_keeps_heading_witness:
  "prependChangelog (Some ''# Changelog\<newline>\<newline>## v0.1.0\<newline>\<newline>- Old\<newline>'') ''## v1.0.0\<newline>\<newline>- New\<newline>''
     = ''# Changelog\<newline>\<newline>## v1.0.0\<newline>\<newline>- New\<newline>\<newline>## v0.1.0\<newline>\<newline>- Old\<newline>''
   \<and> firstLine (foldl (\<lambda>d s. prependChangelog (Some d) s)
        ''# Changelog\<newline>\<newline>## v0.1.0\<newline>\<newline>- Old\<newline>''
        [''## v1.0.0\<newline>\<newline>- New\<newline>'', ''## v1.1.0\<newline>\<newline>- Newer\<newline>'']) = ''# Changelog''"
proof -
  let ?doc = "''# Changelog\<newline>\<newline>## v0.1.0\<newline>\<newline>- Old\<newline>''"
  have h: "HasPrefix ?doc ''# ''" by code_simp
  have f: "firstLine ?doc = ''# Changelog''" by code_simp
  have n: "CHR ''\<newline>'' \<in> set ?doc" by simp
  have t: "TrimLeft (drop (Suc (length ''# Changelog'')) ?doc) ''\<newline>'' = ''## v0.1.0\<newline>\<newline>- Old\<newline>''"
    by code_simp
  from changelog_merge_keeps_heading [of ?doc "''## v1.0.0\<newline>\<newline>- New\<newline>''"
      "[''## v1.0.0\<newline>\<newline>- New\<newline>'', ''## v1.1.0\<newline>\<newline>- Newer\<newline>'']" ?doc] h f
  have "prependChangelog (Some ?doc) ''## v1.0.0\<newline>\<newline>- New\<newline>'' =
        firstLine ?doc @ ''\<newline>\<newline>'' @ ''## v1.0.0\<newline>\<newline>- New\<newline>''
        @ (if CHR ''\<newline>'' \<in> set ?doc
           then ''\<newline>'' @ TrimLeft (drop (Suc (length (firstLine ?doc))) ?doc) ''\<newline>''
           else [])"
    and "firstLine (foldl (\<lambda>d s. prependChangelog (Some d) s) ?doc
        [''## v1.0.0\<newline>\<newline>- New\<newline>'', ''## v1.1.0\<newline>\<newline>- Newer\<newline>'']) = ''# Changelog''"
    by blast+
  then show ?thesis unfolding f t using n by simp
qed

end
